theory Spec2Isabelle
  imports Main "HOL-Library.Multiset" "HOL-Library.List_Lexorder"
begin

section \<open>JavaScript values as the program sees them\<close>

text \<open>
  A JavaScript string is a sequence of UTF-16 code units; a code unit is modelled as a
  natural number (below 65536 for every string the program can hold).  \<open>ustr\<close> turns
  an ASCII literal into such a string.
\<close>

type_synonym jstring = "nat list"

definition ustr :: "string \<Rightarrow> jstring" where
  "ustr s = map of_char s"

text \<open>
  The values \<open>JSON.parse\<close> and \<open>jsonlint.parse\<close> build: \<open>null\<close>, booleans, numbers,
  strings, arrays and plain objects.  Numbers are IEEE doubles in the program; the model
  keeps their type abstract (\<open>'n\<close>), since no function of \<open>App.jsx\<close> computes with them.
  An object is the list of its own properties in the order \<open>Object.keys\<close> enumerates them.
\<close>

datatype 'n json =
    JNull
  | JBool bool
  | JNum 'n
  | JStr jstring
  | JArr "'n json list"
  | JObj "(jstring \<times> 'n json) list"

subsection \<open>Property order of ordinary objects\<close>

text \<open>
  A property key is an array index when it is the canonical decimal numeral of an
  integer below \<open>2^32 - 1\<close>.  An ordinary object enumerates its array-index keys first,
  in ascending numeric order, and then its other string keys in the order in which they
  were created.
\<close>

definition is_digit :: "nat \<Rightarrow> bool" where
  "is_digit c = (48 \<le> c \<and> c \<le> 57)"

definition digits_val :: "jstring \<Rightarrow> nat" where
  "digits_val k = foldl (\<lambda>a c. 10 * a + (c - 48)) 0 k"

definition is_array_index :: "jstring \<Rightarrow> bool" where
  "is_array_index k =
     (k \<noteq> [] \<and> list_all is_digit k \<and> (hd k = 48 \<longrightarrow> k = [48])
      \<and> digits_val k < 4294967295)"

fun insert_index :: "jstring \<Rightarrow> 'a \<Rightarrow> (jstring \<times> 'a) list \<Rightarrow> (jstring \<times> 'a) list" where
  "insert_index k v [] = [(k, v)]"
| "insert_index k v (p # ps) =
     (if is_array_index (fst p) \<and> digits_val (fst p) < digits_val k
      then p # insert_index k v ps
      else (k, v) # p # ps)"

fun replace_value :: "jstring \<Rightarrow> 'a \<Rightarrow> (jstring \<times> 'a) list \<Rightarrow> (jstring \<times> 'a) list" where
  "replace_value k v [] = []"
| "replace_value k v (p # ps) =
     (if fst p = k then (k, v) # ps else p # replace_value k v ps)"

text \<open>
  Creating or overwriting the own data property \<open>k\<close>: an existing property keeps its
  place, a new array index goes to its numeric place, any other new key goes last.
\<close>

definition property_set :: "jstring \<Rightarrow> 'a \<Rightarrow> (jstring \<times> 'a) list \<Rightarrow> (jstring \<times> 'a) list" where
  "property_set k v ps =
     (if k \<in> set (map fst ps) then replace_value k v ps
      else if is_array_index k then insert_index k v ps
      else ps @ [(k, v)])"

text \<open>
  The assignment \<open>sorted[k] = x\<close> on an object made by \<open>{}\<close>.  The key \<open>__proto__\<close> is
  an accessor inherited from \<open>Object.prototype\<close>: assigning to it never creates an own
  property.
\<close>

definition js_assign :: "jstring \<Rightarrow> 'a \<Rightarrow> (jstring \<times> 'a) list \<Rightarrow> (jstring \<times> 'a) list" where
  "js_assign k v ps = (if k = ustr ''__proto__'' then ps else property_set k v ps)"

subsection \<open>\<open>Array.prototype.sort\<close> with a comparator\<close>

text \<open>
  \<open>xs.sort(cmp)\<close> is a stable sort: with a consistent comparator (the only case in
  which the language fixes the result) the elements end in ascending order, and elements
  that compare equal keep their order.  The comparator of \<open>sortKeysDeep\<close> is
  \<open>(a, b) => a.localeCompare(b)\<close>; the host's collation is not part of the repository
  and is the parameter \<open>lc\<close> below.
\<close>

fun insort_by :: "('a \<Rightarrow> 'a \<Rightarrow> int) \<Rightarrow> 'a \<Rightarrow> 'a list \<Rightarrow> 'a list" where
  "insort_by cmp x [] = [x]"
| "insort_by cmp x (y # ys) =
     (if cmp x y \<le> 0 then x # y # ys else y # insort_by cmp x ys)"

definition js_sort :: "('a \<Rightarrow> 'a \<Rightarrow> int) \<Rightarrow> 'a list \<Rightarrow> 'a list" where
  "js_sort cmp xs = foldr (insort_by cmp) xs []"

section \<open>\<open>sortKeysDeep\<close> (App.jsx, lines 167-180)\<close>

text \<open>
  \<^verbatim>\<open>
  const sortKeysDeep = (value) => {
    if (Array.isArray(value)) {
      return value.map(sortKeysDeep);
    } else if (value && typeof value === 'object') {
      const sorted = {};
      Object.keys(value)
        .sort((a, b) => a.localeCompare(b))
        .forEach(k => {
          sorted[k] = sortKeysDeep(value[k]);
        });
      return sorted;
    }
    return value;
  };
  \<close>
  \<open>value[k]\<close> is the look-up \<open>map_of ps k\<close>; it finds a value for every key
  that \<open>Object.keys\<close> gives.  The recursion goes into the values of the object, which
  are smaller than the object.
\<close>

lemma map_of_size_less:
  "map_of ps k = Some v \<Longrightarrow> size v < Suc (size_list (size_prod (\<lambda>_. 0) size) ps)"
  by (induction ps) (auto split: if_splits)

function sortKeysDeep :: "(jstring \<Rightarrow> jstring \<Rightarrow> int) \<Rightarrow> 'n json \<Rightarrow> 'n json" where
  "sortKeysDeep lc (JArr xs) = JArr (map (sortKeysDeep lc) xs)"
| "sortKeysDeep lc (JObj ps) =
     JObj (fold (\<lambda>k sorted. case map_of ps k of
                   None \<Rightarrow> sorted
                 | Some v \<Rightarrow> js_assign k (sortKeysDeep lc v) sorted)
             (js_sort lc (map fst ps)) [])"
| "sortKeysDeep lc JNull = JNull"
| "sortKeysDeep lc (JBool b) = JBool b"
| "sortKeysDeep lc (JNum n) = JNum n"
| "sortKeysDeep lc (JStr s) = JStr s"
  by pat_completeness auto
termination
  by (relation "measure (\<lambda>(lc, v). size v)")
    (auto dest: map_of_size_less simp: less_Suc_eq_le size_list_estimation')

text \<open>
  The values a JavaScript program can hold: the own keys of every object are distinct and
  come in property order.
\<close>

definition key_before :: "jstring \<Rightarrow> jstring \<Rightarrow> bool" where
  "key_before a b = (is_array_index b \<longrightarrow> is_array_index a \<and> digits_val a < digits_val b)"

definition prop_ordered :: "jstring list \<Rightarrow> bool" where
  "prop_ordered ks = sorted_wrt key_before ks"

fun wf_json :: "'n json \<Rightarrow> bool" where
  "wf_json (JArr xs) = list_all wf_json xs"
| "wf_json (JObj ps) =
     (distinct (map fst ps) \<and> prop_ordered (map fst ps) \<and> list_all (\<lambda>p. wf_json (snd p)) ps)"
| "wf_json v = True"

text \<open>
  The order \<open>sortKeysDeep\<close> leaves the keys of an object in, given the keys as
  sorted by the comparator: \<open>__proto__\<close> is gone, the array indices come first by
  value, the other keys follow as sorted.
\<close>

definition own_order :: "jstring list \<Rightarrow> jstring list" where
  "own_order ks =
     sort_key digits_val (filter is_array_index ks)
     @ filter (\<lambda>k. \<not> is_array_index k \<and> k \<noteq> ustr ''__proto__'') ks"

text \<open>A comparator is consistent when \<open>cmp a b \<le> 0\<close> is a total preorder.\<close>

definition consistent :: "('a \<Rightarrow> 'a \<Rightarrow> int) \<Rightarrow> bool" where
  "consistent cmp =
     ((\<forall>a b. cmp a b \<le> 0 \<or> cmp b a \<le> 0)
      \<and> (\<forall>a b c. cmp a b \<le> 0 \<longrightarrow> cmp b c \<le> 0 \<longrightarrow> cmp a c \<le> 0))"

text \<open>Comparison of strings by code units, the order the specification names.\<close>

fun cu_less :: "jstring \<Rightarrow> jstring \<Rightarrow> bool" where
  "cu_less [] [] = False"
| "cu_less [] (y # ys) = True"
| "cu_less (x # xs) [] = False"
| "cu_less (x # xs) (y # ys) = (x < y \<or> (x = y \<and> cu_less xs ys))"

definition cp_compare :: "jstring \<Rightarrow> jstring \<Rightarrow> int" where
  "cp_compare a b = (if cu_less a b then - 1 else if cu_less b a then 1 else 0)"

text \<open>Every object of the value, at every depth, has its keys in ascending code-unit order.\<close>

fun codepoint_sorted :: "'n json \<Rightarrow> bool" where
  "codepoint_sorted (JArr xs) = list_all codepoint_sorted xs"
| "codepoint_sorted (JObj ps) =
     (sorted_wrt cu_less (map fst ps) \<and> list_all (\<lambda>p. codepoint_sorted (snd p)) ps)"
| "codepoint_sorted v = True"

text \<open>
  What \<open>sortKeysDeep\<close> establishes at every depth: the keys that are not array
  indices are in the comparator's order.
\<close>

fun locale_sorted :: "(jstring \<Rightarrow> jstring \<Rightarrow> int) \<Rightarrow> 'n json \<Rightarrow> bool" where
  "locale_sorted lc (JArr xs) = list_all (locale_sorted lc) xs"
| "locale_sorted lc (JObj ps) =
     (sorted_wrt (\<lambda>a b. lc a b \<le> 0) (filter (\<lambda>k. \<not> is_array_index k) (map fst ps))
      \<and> list_all (\<lambda>p. locale_sorted lc (snd p)) ps)"
| "locale_sorted lc v = True"

section \<open>JSON text\<close>

subsection \<open>Tokens\<close>

text \<open>
  Modelled from the spec: the parser of section 4.1,
  \<open>parse(text) -> JsonValue | ParseError\<close>.  Neither function the page parses with
  is under src/: \<open>window.jsonlint.parse\<close> is a library the page loads, and
  \<open>JSON.parse\<close> belongs to the host.  The grammar is the one section 4.1 gives, that
  of ECMA-404: six structural characters, strings with the escapes
  \<open>\" \\ \/ \b \f \n \r \t \uXXXX\<close>, numbers, the literals \<open>true\<close>,
  \<open>false\<close> and \<open>null\<close>, and white space (space, tab, line feed, carriage
  return) between tokens.
\<close>

datatype 'n token =
    TLBrace | TRBrace | TLBrack | TRBrack | TColon | TComma
  | TString jstring
  | TNumber 'n
  | TTrue | TFalse | TNull

datatype 'n lexed = LEnd | LErr | LTok "'n token" jstring

definition json_ws :: "nat \<Rightarrow> bool" where
  "json_ws c = (c = 32 \<or> c = 9 \<or> c = 10 \<or> c = 13)"

definition hex_val :: "nat \<Rightarrow> nat option" where
  "hex_val c =
     (if 48 \<le> c \<and> c \<le> 57 then Some (c - 48)
      else if 97 \<le> c \<and> c \<le> 102 then Some (c - 87)
      else if 65 \<le> c \<and> c \<le> 70 then Some (c - 55)
      else None)"

definition hex4_val :: "nat \<Rightarrow> nat \<Rightarrow> nat \<Rightarrow> nat \<Rightarrow> nat option" where
  "hex4_val a b c d =
     (case (hex_val a, hex_val b, hex_val c, hex_val d) of
        (Some x, Some y, Some z, Some w) \<Rightarrow> Some (4096 * x + 256 * y + 16 * z + w)
      | _ \<Rightarrow> None)"

text \<open>The character an escape \<open>\e\<close> stands for, \<open>\uXXXX\<close> apart.\<close>

definition unescape :: "nat \<Rightarrow> nat option" where
  "unescape e =
     (if e = 34 then Some 34 else if e = 92 then Some 92 else if e = 47 then Some 47
      else if e = 98 then Some 8 else if e = 102 then Some 12 else if e = 110 then Some 10
      else if e = 114 then Some 13 else if e = 116 then Some 9 else None)"

text \<open>
  The rest of a string after its opening quote: the characters it denotes and the text
  after its closing quote.  A control character, a bad escape or the end of the text
  before the closing quote is an error.
\<close>

fun lex_string :: "jstring \<Rightarrow> (jstring \<times> jstring) option" where
  "lex_string [] = None"
| "lex_string (c # r) =
     (if c = 34 then Some ([], r)
      else if c = 92 then
        (case r of
           [] \<Rightarrow> None
         | e # r' \<Rightarrow>
             if e = 117 then
               (case r' of
                  h1 # h2 # h3 # h4 # r'' \<Rightarrow>
                    (case hex4_val h1 h2 h3 h4 of
                       None \<Rightarrow> None
                     | Some u \<Rightarrow> map_option (\<lambda>(s, t). (u # s, t)) (lex_string r''))
                | _ \<Rightarrow> None)
             else
               (case unescape e of
                  None \<Rightarrow> None
                | Some d \<Rightarrow> map_option (\<lambda>(s, t). (d # s, t)) (lex_string r')))
      else if c < 32 then None
      else map_option (\<lambda>(s, t). (c # s, t)) (lex_string r))"

text \<open>
  A number: an optional minus, \<open>0\<close> or a digit string without leading zero, an
  optional fraction, an optional exponent.  The result is the literal and the text after
  it.
\<close>

definition lex_int :: "jstring \<Rightarrow> (jstring \<times> jstring) option" where
  "lex_int s =
     (case s of
        [] \<Rightarrow> None
      | c # r \<Rightarrow>
          if c = 48 then Some ([48], r)
          else if is_digit c then Some (c # takeWhile is_digit r, dropWhile is_digit r)
          else None)"

definition lex_frac :: "jstring \<Rightarrow> (jstring \<times> jstring) option" where
  "lex_frac s =
     (case s of
        c # r \<Rightarrow>
          if c = 46 then
            (if takeWhile is_digit r = [] then None
             else Some (c # takeWhile is_digit r, dropWhile is_digit r))
          else Some ([], s)
      | [] \<Rightarrow> Some ([], s))"

definition lex_exp :: "jstring \<Rightarrow> (jstring \<times> jstring) option" where
  "lex_exp s =
     (case s of
        c # r \<Rightarrow>
          if c = 101 \<or> c = 69 then
            (let sign = (case r of x # _ \<Rightarrow> if x = 43 \<or> x = 45 then [x] else [] | [] \<Rightarrow> []);
                 r' = drop (length sign) r
             in if takeWhile is_digit r' = [] then None
                else Some (c # sign @ takeWhile is_digit r', dropWhile is_digit r'))
          else Some ([], s)
      | [] \<Rightarrow> Some ([], s))"

definition lex_number :: "jstring \<Rightarrow> (jstring \<times> jstring) option" where
  "lex_number s =
     (let sign = (case s of c # _ \<Rightarrow> if c = 45 then [45] else [] | [] \<Rightarrow> []) in
      case lex_int (drop (length sign) s) of
        None \<Rightarrow> None
      | Some (i, r1) \<Rightarrow>
          (case lex_frac r1 of
             None \<Rightarrow> None
           | Some (f, r2) \<Rightarrow>
               (case lex_exp r2 of
                  None \<Rightarrow> None
                | Some (e, r3) \<Rightarrow> Some (sign @ i @ f @ e, r3))))"

text \<open>
  The next token of a text.  \<open>to_number\<close> is the host's conversion of a number literal
  to a double (\<open>Number(literal)\<close>).
\<close>

definition next_token :: "(jstring \<Rightarrow> 'n) \<Rightarrow> jstring \<Rightarrow> 'n lexed" where
  "next_token to_number s =
     (case dropWhile json_ws s of
        [] \<Rightarrow> LEnd
      | c # r \<Rightarrow>
          if c = 123 then LTok TLBrace r
          else if c = 125 then LTok TRBrace r
          else if c = 91 then LTok TLBrack r
          else if c = 93 then LTok TRBrack r
          else if c = 58 then LTok TColon r
          else if c = 44 then LTok TComma r
          else if c = 34 then
            (case lex_string r of None \<Rightarrow> LErr | Some (str, r') \<Rightarrow> LTok (TString str) r')
          else if c = 45 \<or> is_digit c then
            (case lex_number (c # r) of
               None \<Rightarrow> LErr
             | Some (lit, r') \<Rightarrow> LTok (TNumber (to_number lit)) r')
          else if take 4 (c # r) = ustr ''true'' then LTok TTrue (drop 3 r)
          else if take 5 (c # r) = ustr ''false'' then LTok TFalse (drop 4 r)
          else if take 4 (c # r) = ustr ''null'' then LTok TNull (drop 3 r)
          else LErr)"

lemma lex_string_shorter: "lex_string s = Some (str, r) \<Longrightarrow> length r < length s"
proof (induction s arbitrary: str r rule: lex_string.induct)
  case 1
  then show ?case by simp
next
  case (2 c r0)
  show ?case
  proof (cases "c = 34")
    case True
    with "2.prems" show ?thesis by simp
  next
    case c34: False
    show ?thesis
    proof (cases "c = 92")
      case False
      with c34 "2.prems" "2.IH"(3) show ?thesis
        by (fastforce split: if_splits)
    next
      case True
      show ?thesis
      proof (cases r0)
        case Nil
        with True c34 "2.prems" show ?thesis by simp
      next
        case (Cons e r')
        show ?thesis
        proof (cases "e = 117")
          case False
          with True c34 Cons "2.prems" "2.IH"(2) show ?thesis
            by (fastforce split: option.splits)
        next
          case e: True
          with True c34 Cons "2.prems" "2.IH"(1) show ?thesis
            by (fastforce split: option.splits list.splits)
        qed
      qed
    qed
  qed
qed

lemma lex_int_split: "lex_int s = Some (i, r) \<Longrightarrow> s = i @ r \<and> i \<noteq> []"
  by (auto simp: lex_int_def split: list.splits if_splits)

lemma lex_frac_split: "lex_frac s = Some (f, r) \<Longrightarrow> s = f @ r"
  by (auto simp: lex_frac_def split: list.splits if_splits)

lemma lex_exp_split: "lex_exp s = Some (e, r) \<Longrightarrow> s = e @ r"
proof -
  assume a: "lex_exp s = Some (e, r)"
  show ?thesis
  proof (cases s)
    case Nil
    with a show ?thesis by (simp add: lex_exp_def)
  next
    case (Cons c r0)
    define sign :: jstring
      where "sign = (case r0 of x # _ \<Rightarrow> if x = 43 \<or> x = 45 then [x] else [] | [] \<Rightarrow> [])"
    have "r0 = sign @ drop (length sign) r0"
      by (auto simp: sign_def split: list.splits)
    then have "r0 = sign @ takeWhile is_digit (drop (length sign) r0)
                 @ dropWhile is_digit (drop (length sign) r0)"
      by simp
    with a Cons show ?thesis
      by (auto simp: lex_exp_def Let_def sign_def[symmetric] split: if_splits)
  qed
qed

lemma lex_number_split: "lex_number s = Some (lit, r) \<Longrightarrow> s = lit @ r \<and> lit \<noteq> []"
proof -
  assume a: "lex_number s = Some (lit, r)"
  define sign :: jstring
    where "sign = (case s of c # _ \<Rightarrow> if c = 45 then [45] else [] | [] \<Rightarrow> [])"
  have s: "s = sign @ drop (length sign) s"
    by (auto simp: sign_def split: list.splits)
  from a obtain i r1 f r2 e where
    i: "lex_int (drop (length sign) s) = Some (i, r1)" and
    f: "lex_frac r1 = Some (f, r2)" and
    e: "lex_exp r2 = Some (e, r)" and
    lit: "lit = sign @ i @ f @ e"
    by (auto simp: lex_number_def sign_def[symmetric] split: option.splits)
  from lex_int_split[OF i] lex_frac_split[OF f] lex_exp_split[OF e] s lit
  show ?thesis by (metis append.assoc append_is_Nil_conv)
qed

lemma lex_number_shorter: "lex_number s = Some (lit, r) \<Longrightarrow> length r < length s"
  by (drule lex_number_split) (cases lit, auto)

lemma next_token_shorter: "next_token tn s = LTok t r \<Longrightarrow> length r < length s"
proof -
  assume a: "next_token tn s = LTok t r"
  have le: "length (dropWhile json_ws s) \<le> length s" by (rule length_dropWhile_le)
  from a obtain c r0 where s: "dropWhile json_ws s = c # r0"
    by (cases "dropWhile json_ws s") (auto simp: next_token_def)
  have "length r < length (c # r0)"
    using a lex_string_shorter[of r0] lex_number_shorter[of "c # r0"]
    unfolding next_token_def s
    by (auto split: if_splits option.splits simp: less_Suc_eq_le)
  with le s show ?thesis by simp
qed

text \<open>The tokens of a whole text, or \<open>None\<close> when some part of it is no token.\<close>

function lex :: "(jstring \<Rightarrow> 'n) \<Rightarrow> jstring \<Rightarrow> 'n token list option" where
  "lex tn s =
     (case next_token tn s of
        LEnd \<Rightarrow> Some []
      | LErr \<Rightarrow> None
      | LTok t r \<Rightarrow> map_option ((#) t) (lex tn r))"
  by pat_completeness auto
termination
  by (relation "measure (\<lambda>(tn, s). length s)") (auto dest: next_token_shorter)

declare lex.simps [simp del]

subsection \<open>The parser\<close>

text \<open>
  The parser reads the tokens from left to right with a stack of the arrays and objects
  that are still open.  A member is stored the way the host stores an own property, so a
  repeated key keeps its first place and takes its last value.
\<close>

datatype 'n frame =
    InArr "'n json list"
  | InObj "(jstring \<times> 'n json) list" jstring

datatype 'n pstate =
    PValue "'n frame list"
  | PArrFirst "'n frame list"
  | PArrNext "'n json list" "'n frame list"
  | PObjFirst "'n frame list"
  | PObjKey "(jstring \<times> 'n json) list" "'n frame list"
  | PObjColon "(jstring \<times> 'n json) list" jstring "'n frame list"
  | PObjNext "(jstring \<times> 'n json) list" "'n frame list"
  | PDone "'n json"

fun deliver :: "'n json \<Rightarrow> 'n frame list \<Rightarrow> 'n pstate" where
  "deliver v [] = PDone v"
| "deliver v (InArr xs # st) = PArrNext (xs @ [v]) st"
| "deliver v (InObj ps k # st) = PObjNext (property_set k v ps) st"

text \<open>A token that starts a value, read where a value is expected.\<close>

fun start_value :: "'n token \<Rightarrow> 'n frame list \<Rightarrow> 'n pstate option" where
  "start_value TLBrack st = Some (PArrFirst st)"
| "start_value TLBrace st = Some (PObjFirst st)"
| "start_value (TString s) st = Some (deliver (JStr s) st)"
| "start_value (TNumber n) st = Some (deliver (JNum n) st)"
| "start_value TTrue st = Some (deliver (JBool True) st)"
| "start_value TFalse st = Some (deliver (JBool False) st)"
| "start_value TNull st = Some (deliver JNull st)"
| "start_value t st = None"

fun step :: "'n pstate \<Rightarrow> 'n token \<Rightarrow> 'n pstate option" where
  "step (PValue st) t = start_value t st"
| "step (PArrFirst st) t =
     (if t = TRBrack then Some (deliver (JArr []) st) else start_value t (InArr [] # st))"
| "step (PArrNext xs st) t =
     (if t = TComma then Some (PValue (InArr xs # st))
      else if t = TRBrack then Some (deliver (JArr xs) st)
      else None)"
| "step (PObjFirst st) t =
     (case t of
        TRBrace \<Rightarrow> Some (deliver (JObj []) st)
      | TString k \<Rightarrow> Some (PObjColon [] k st)
      | _ \<Rightarrow> None)"
| "step (PObjKey ps st) t =
     (case t of TString k \<Rightarrow> Some (PObjColon ps k st) | _ \<Rightarrow> None)"
| "step (PObjColon ps k st) t =
     (if t = TColon then Some (PValue (InObj ps k # st)) else None)"
| "step (PObjNext ps st) t =
     (if t = TComma then Some (PObjKey ps st)
      else if t = TRBrace then Some (deliver (JObj ps) st)
      else None)"
| "step (PDone v) t = None"

fun run :: "'n pstate option \<Rightarrow> 'n token list \<Rightarrow> 'n pstate option" where
  "run None ts = None"
| "run (Some s) [] = Some s"
| "run (Some s) (t # ts) = run (step s t) ts"

definition parse_tokens :: "'n token list \<Rightarrow> 'n json option" where
  "parse_tokens ts = (case run (Some (PValue [])) ts of Some (PDone v) \<Rightarrow> Some v | _ \<Rightarrow> None)"

text \<open>
  Modelled from the spec: \<open>parse\<close> of section 4.1 as a whole (in the source,
  \<open>JSON.parse\<close> and \<open>window.jsonlint.parse\<close>, both outside src/): the value of a
  text, or \<open>None\<close> where parsing fails.
\<close>

definition JSON_parse :: "(jstring \<Rightarrow> 'n) \<Rightarrow> jstring \<Rightarrow> 'n json option" where
  "JSON_parse tn s = (case lex tn s of None \<Rightarrow> None | Some ts \<Rightarrow> parse_tokens ts)"

subsection \<open>\<open>JSON.stringify\<close>\<close>

definition hex_digit :: "nat \<Rightarrow> nat" where
  "hex_digit d = (if d < 10 then 48 + d else 87 + d)"

definition unicode_escape :: "nat \<Rightarrow> jstring" where
  "unicode_escape c =
     [92, 117, hex_digit (c div 4096 mod 16), hex_digit (c div 256 mod 16),
      hex_digit (c div 16 mod 16), hex_digit (c mod 16)]"

definition high_surrogate :: "nat \<Rightarrow> bool" where
  "high_surrogate c = (55296 \<le> c \<and> c \<le> 56319)"

definition low_surrogate :: "nat \<Rightarrow> bool" where
  "low_surrogate c = (56320 \<le> c \<and> c \<le> 57343)"

text \<open>
  The body of a quoted string: the short escapes, \<open>\u00XX\<close> for the other control
  characters and for a surrogate without its partner, every other code unit as it is.
\<close>

fun quote_units :: "jstring \<Rightarrow> jstring" where
  "quote_units [] = []"
| "quote_units (c # cs) =
     (if c = 8 then [92, 98] @ quote_units cs
      else if c = 9 then [92, 116] @ quote_units cs
      else if c = 10 then [92, 110] @ quote_units cs
      else if c = 12 then [92, 102] @ quote_units cs
      else if c = 13 then [92, 114] @ quote_units cs
      else if c = 34 then [92, 34] @ quote_units cs
      else if c = 92 then [92, 92] @ quote_units cs
      else if c < 32 then unicode_escape c @ quote_units cs
      else if high_surrogate c then
        (case cs of
           d # ds \<Rightarrow>
             if low_surrogate d then c # d # quote_units ds
             else unicode_escape c @ quote_units cs
         | [] \<Rightarrow> unicode_escape c)
      else if low_surrogate c then unicode_escape c @ quote_units cs
      else c # quote_units cs)"

definition quote :: "jstring \<Rightarrow> jstring" where
  "quote s = [34] @ quote_units s @ [34]"

fun join :: "'a list \<Rightarrow> 'a list list \<Rightarrow> 'a list" where
  "join sep [] = []"
| "join sep [x] = x"
| "join sep (x # y # ys) = x @ sep @ join sep (y # ys)"

text \<open>
  Modelled from the spec: \<open>prettyPrint\<close> and \<open>minify\<close> of section 4.3, for which
  the page calls the host's \<open>JSON.stringify\<close> (not under src/).  Keys and elements
  keep their order; with a gap, each nested container is indented by one more gap and
  nothing follows the last character of a line; without a gap there is no white space
  at all; strings are escaped by the rules the parser accepts.
  \<open>serialize nt gap ind v\<close> is the text of \<open>v\<close> at indentation \<open>ind\<close>, and
  \<open>nt\<close> is the text the host writes for a number.
\<close>

fun serialize :: "('n \<Rightarrow> jstring) \<Rightarrow> jstring \<Rightarrow> jstring \<Rightarrow> 'n json \<Rightarrow> jstring" where
  "serialize nt gap ind JNull = ustr ''null''"
| "serialize nt gap ind (JBool b) = (if b then ustr ''true'' else ustr ''false'')"
| "serialize nt gap ind (JNum n) = nt n"
| "serialize nt gap ind (JStr s) = quote s"
| "serialize nt gap ind (JArr xs) =
     (if xs = [] then ustr ''[]''
      else if gap = [] then
        [91] @ join [44] (map (serialize nt gap (ind @ gap)) xs) @ [93]
      else
        [91, 10] @ ind @ gap
        @ join ([44, 10] @ ind @ gap) (map (serialize nt gap (ind @ gap)) xs)
        @ [10] @ ind @ [93])"
| "serialize nt gap ind (JObj ps) =
     (if ps = [] then ustr ''{}''
      else if gap = [] then
        [123] @ join [44]
          (map (\<lambda>p. quote (fst p) @ [58] @ serialize nt gap (ind @ gap) (snd p)) ps) @ [125]
      else
        [123, 10] @ ind @ gap
        @ join ([44, 10] @ ind @ gap)
            (map (\<lambda>p. quote (fst p) @ [58, 32] @ serialize nt gap (ind @ gap) (snd p)) ps)
        @ [10] @ ind @ [125])"

text \<open>
  \<open>JSON.stringify(v, null, indent)\<close> for a number \<open>indent\<close>: the gap is that many
  spaces, ten at most.  \<open>JSON.stringify(v)\<close> is the case without gap.
\<close>

definition JSON_stringify :: "('n \<Rightarrow> jstring) \<Rightarrow> nat \<Rightarrow> 'n json \<Rightarrow> jstring" where
  "JSON_stringify nt indent v = serialize nt (replicate (min indent 10) 32) [] v"

section \<open>The editor page (App.jsx)\<close>

subsection \<open>Host functions on strings\<close>

text \<open>
  \<open>String.prototype.trim\<close> removes white space and line terminators from both ends;
  the same characters are what \<open>\s\<close> matches in a regular expression.
\<close>

definition js_ws :: "nat \<Rightarrow> bool" where
  "js_ws c = (c \<in> {9, 10, 11, 12, 13, 32, 160, 5760, 8232, 8233, 8239, 8287, 12288, 65279}
              \<or> (8192 \<le> c \<and> c \<le> 8202))"

definition trim :: "jstring \<Rightarrow> jstring" where
  "trim s = rev (dropWhile js_ws (rev (dropWhile js_ws s)))"

text \<open>
  Matching ignores case under the flag \<open>i\<close>; for the letters of \<open>line\<close> and
  \<open>column\<close> only the two ASCII forms of a letter are equal.
\<close>

definition upper :: "nat \<Rightarrow> nat" where
  "upper c = (if 97 \<le> c \<and> c \<le> 122 then c - 32 else c)"

text \<open>
  \<open>re_at w s\<close>: the pattern \<open>/w\s+(\d+)/i\<close> matched at the very start of \<open>s\<close>,
  giving the digits captured.  \<open>re_find\<close> is \<open>String.prototype.match\<close> for that pattern:
  the leftmost match.
\<close>

definition re_at :: "jstring \<Rightarrow> jstring \<Rightarrow> jstring option" where
  "re_at w s =
     (if map upper (take (length w) s) = map upper w
      then (let r = drop (length w) s;
                ds = takeWhile is_digit (dropWhile js_ws r)
            in if takeWhile js_ws r \<noteq> [] \<and> ds \<noteq> [] then Some ds else None)
      else None)"

fun re_find :: "jstring \<Rightarrow> jstring \<Rightarrow> jstring option" where
  "re_find w [] = re_at w []"
| "re_find w (c # s) =
     (case re_at w (c # s) of Some ds \<Rightarrow> Some ds | None \<Rightarrow> re_find w s)"

subsection \<open>\<open>extractLineCol\<close> (lines 102-109)\<close>

text \<open>
  A line or column number of the program is a double.  \<open>Number(m[1]) - 1\<close> on a string
  of digits that denotes a number below \<open>2^53 = 9007199254740992\<close> is exact: that number
  less one.  From \<open>2^53\<close> on \<open>Number\<close> rounds (\<open>Number('9007199254740993')\<close> is
  \<open>9007199254740992\<close>), and from about \<open>1.8e308\<close> on it is \<open>Infinity\<close>; the result
  is then some double of at least \<open>2^53 - 1\<close>, for which the model writes \<open>Huge\<close>
  without keeping its value.
\<close>

datatype jsnum = Exact int | Huge

definition Number_less_one :: "jstring \<Rightarrow> jsnum" where
  "Number_less_one ds =
     (if digits_val ds < 9007199254740992 then Exact (int (digits_val ds) - 1) else Huge)"

text \<open>
  \<^verbatim>\<open>
  const extractLineCol = (errMsg) => {
    let line = null, col = null;
    const lineMatch = errMsg.match(/line\s+(\d+)/i);
    if (lineMatch) line = Number(lineMatch[1]) - 1;
    const colMatch = errMsg.match(/column\s+(\d+)/i);
    if (colMatch) col = Number(colMatch[1]) - 1;
    return { line, col };
  };
  \<close>
\<close>

definition extractLineCol :: "jstring \<Rightarrow> jsnum option \<times> jsnum option" where
  "extractLineCol errMsg =
     (map_option Number_less_one (re_find (ustr ''line'') errMsg),
      map_option Number_less_one (re_find (ustr ''column'') errMsg))"

subsection \<open>The state of the page\<close>

datatype status_type = Danger | Success

datatype keys_kpi = Keys nat | Dash

text \<open>
  \<open>cm_value\<close> is the editor's content (\<open>cm.current.getValue()\<close>), \<open>cursor\<close> the
  position \<open>(line, ch)\<close> last given to \<open>setCursor\<close>; \<open>status\<close>, \<open>statusType\<close> and
  the three \<open>kpi\<close> fields are the React state of the component, \<open>timer\<close> the pending
  timer of the change handler.  \<open>end_hidden\<close> is the one fact about what the editor
  displays that the program's behaviour depends on: whether the document reaches below
  the part of it that the editor (520 pixels high) shows.
\<close>

record app =
  cm_value :: jstring
  cursor :: "jsnum \<times> jsnum"
  status :: jstring
  statusType :: "status_type option"
  kpi_size :: nat
  kpi_lines :: nat
  kpi_keys :: keys_kpi
  timer :: "nat option"
  end_hidden :: bool

text \<open>
  An error thrown by the parser.  The program reads its \<open>message\<close> only; \<open>err_line\<close>
  and \<open>err_column\<close> are the structured position of the specification's \<open>ParseError\<close>
  (absent when the parser gives none).
\<close>

record parse_error =
  message :: jstring
  err_line :: "nat option"
  err_column :: "nat option"

subsection \<open>The lines of the editor\<close>

text \<open>
  The editor (CodeMirror 5, a dependency of the page and not part of the repository)
  holds a document as a list of lines.  It splits a text with
  \<open>string.split(/\r\n?|\n/)\<close>, so at \<open>\r\n\<close>, \<open>\r\<close> and \<open>\n\<close>;
  \<open>getValue()\<close> joins the lines with \<open>\n\<close>, and \<open>lineCount()\<close> is the
  number of lines.  A text that ends with a separator has an empty last line.
\<close>

fun splitLines :: "jstring \<Rightarrow> jstring list" where
  "splitLines [] = [[]]"
| "splitLines (c # s) =
     (if c = 10 then [] # splitLines s
      else if c = 13 then
        (case s of
           d # s' \<Rightarrow> if d = 10 then [] # splitLines s' else [] # splitLines s
         | [] \<Rightarrow> [[], []])
      else
        (case splitLines s of
           l # ls \<Rightarrow> (c # l) # ls
         | [] \<Rightarrow> [[c]]))"

definition lineCount :: "jstring \<Rightarrow> nat" where
  "lineCount text = length (splitLines text)"

subsection \<open>\<open>scrollToError\<close> and \<open>validate\<close> (lines 111-137)\<close>

text \<open>
  \<^verbatim>\<open>
  const scrollToError = (line, ch) => {
    cm.current.scrollIntoView({ line, ch }, 100);
    cm.current.setCursor({ line, ch });
    cm.current.focus();
  };

  const validate = () => {
    const text = cm.current.getValue().trim();
    if (!text) {
      setStatus('Please enter JSON.');
      setStatusType('danger');
      return false;
    }
    try {
      window.jsonlint.parse(text);
      setStatus('Valid JSON \u2713');
      setStatusType('success');
      return true;
    } catch (e) {
      const { line, col } = extractLineCol(e.message);
      setStatus('Invalid JSON: ' + e.message);
      setStatusType('danger');
      if (line !== null) scrollToError(line, col || 0);
      return false;
    }
  };
  \<close>
  The editor's \<open>scrollIntoView\<close> looks up the line it is given while it computes the
  lines to display, and throws (\<open>There is no line -1 in the document.\<close>) when there is
  no such line: always for a negative line, and for a line after the last one when the
  document reaches below the part displayed.  \<open>setCursor\<close> is then not reached, and
  \<open>scrollToError\<close> ends by that exception: \<open>None\<close>.  Otherwise \<open>setCursor\<close> is given the
  position (which the editor clips to the document).  A line \<open>Huge\<close> lies after the last
  line of every document, a string having fewer than \<open>2^53\<close> code units.  The scroll
  position and the focus are not part of the state.
\<close>

definition no_such_line :: "jsnum \<Rightarrow> app \<Rightarrow> bool" where
  "no_such_line line st =
     (case line of
        Exact l \<Rightarrow> l < 0 \<or> (int (lineCount (cm_value st)) \<le> l \<and> end_hidden st)
      | Huge \<Rightarrow> end_hidden st)"

definition scrollToError :: "jsnum \<Rightarrow> jsnum \<Rightarrow> app \<Rightarrow> app option" where
  "scrollToError line ch st =
     (if no_such_line line st then None else Some (st\<lparr>cursor := (line, ch)\<rparr>))"

text \<open>
  \<open>P\<close> is \<open>window.jsonlint.parse\<close>, a library loaded by the page and not part of the
  repository: it returns the parsed value or throws.  \<open>col || 0\<close> is \<open>0\<close> when the
  column is \<open>null\<close> or \<open>0\<close>.  \<open>validate\<close> returns a boolean, or ends by the exception
  of \<open>scrollToError\<close>, which nothing catches: the status is then already set.
\<close>

datatype 'a completion = Return 'a | Throw

definition validate :: "(jstring \<Rightarrow> parse_error + 'v) \<Rightarrow> app \<Rightarrow> bool completion \<times> app" where
  "validate P st =
     (let text = trim (cm_value st) in
      if text = [] then
        (Return False, st\<lparr>status := ustr ''Please enter JSON.'', statusType := Some Danger\<rparr>)
      else
        (case P text of
           Inr obj \<Rightarrow>
             (Return True,
              st\<lparr>status := ustr ''Valid JSON '' @ [10003], statusType := Some Success\<rparr>)
         | Inl e \<Rightarrow>
             (let (line, col) = extractLineCol (message e);
                  st' = st\<lparr>status := ustr ''Invalid JSON: '' @ message e,
                            statusType := Some Danger\<rparr>
              in case line of
                   None \<Rightarrow> (Return False, st')
                 | Some l \<Rightarrow>
                     (case scrollToError l (case col of None \<Rightarrow> Exact 0 | Some c \<Rightarrow> c) st' of
                        None \<Rightarrow> (Throw, st')
                      | Some st'' \<Rightarrow> (Return False, st'')))))"

subsection \<open>\<open>updateKpis\<close> (lines 87-100)\<close>

text \<open>\<open>new Blob([text]).size\<close>: the length of the UTF-8 encoding of the text.\<close>

fun utf8_size :: "jstring \<Rightarrow> nat" where
  "utf8_size [] = 0"
| "utf8_size (c # cs) =
     (if c < 128 then 1 + utf8_size cs
      else if c < 2048 then 2 + utf8_size cs
      else if high_surrogate c then
        (case cs of
           d # ds \<Rightarrow> if low_surrogate d then 4 + utf8_size ds else 3 + utf8_size cs
         | [] \<Rightarrow> 3)
      else 3 + utf8_size cs)"

text \<open>
  \<open>J\<close> is the host's \<open>JSON.parse\<close>: the value, or \<open>None\<close> where it throws.
\<close>

text \<open>
  \<^verbatim>\<open>
  const updateKpis = () => {
    const text = cm.current.getValue();
    setSize(new Blob([text]).size);
    setLines(cm.current.lineCount());
    try {
      const obj = JSON.parse(text);
      const keysCount = Array.isArray(obj)
        ? obj.length
        : (typeof obj === 'object' && obj ? Object.keys(obj).length : 0);
      setKeys(keysCount);
    } catch {
      setKeys('\u2014');
    }
  };
  \<close>
  \<open>Dash\<close> is the string \<open>'\u2014'\<close>.
\<close>

definition keysCount :: "'n json \<Rightarrow> nat" where
  "keysCount obj =
     (case obj of
        JArr xs \<Rightarrow> length xs
      | JObj ps \<Rightarrow> length ps
      | _ \<Rightarrow> 0)"

definition updateKpis :: "(jstring \<Rightarrow> 'n json option) \<Rightarrow> app \<Rightarrow> app" where
  "updateKpis J st =
     (let text = cm_value st in
      st\<lparr>kpi_size := utf8_size text,
         kpi_lines := lineCount text,
         kpi_keys := (case J text of Some obj \<Rightarrow> Keys (keysCount obj) | None \<Rightarrow> Dash)\<rparr>)"

subsection \<open>The change handler and its timer (lines 66-76)\<close>

text \<open>
  \<open>timer\<close> is the pending \<open>setTimeout\<close> of the change handler: the time, in
  milliseconds, at which its callback is due.  Every change of the document, typed or
  made by \<open>setValue\<close>, runs the handler: \<open>updateKpis\<close> at once, then \<open>clearTimeout\<close>
  and a new \<open>setTimeout\<close> of 400 ms.
\<close>

text \<open>
  \<^verbatim>\<open>
  let t;
  cm.current.on('change', () => {
    updateKpis();
    clearTimeout(t);
    t = setTimeout(() => {
      if (autoValidate) {
        const ok = validate();
        if (ok) setStatus('Looks good \u2713');
      }
    }, 400);
  });
  \<close>
\<close>

definition on_change :: "(jstring \<Rightarrow> 'n json option) \<Rightarrow> nat \<Rightarrow> app \<Rightarrow> app" where
  "on_change J now st = (updateKpis J st)\<lparr>timer := Some (now + 400)\<rparr>"

definition setValue :: "(jstring \<Rightarrow> 'n json option) \<Rightarrow> nat \<Rightarrow> jstring \<Rightarrow> app \<Rightarrow> app" where
  "setValue J now s st = on_change J now (st\<lparr>cm_value := join [10] (splitLines s)\<rparr>)"

text \<open>
  The callback of the timer.  \<open>autoValidate\<close> is the value the handler's closure
  holds.  When \<open>validate\<close> throws, the callback ends by that exception.
\<close>

definition on_timeout :: "(jstring \<Rightarrow> parse_error + 'v) \<Rightarrow> bool \<Rightarrow> app \<Rightarrow> app" where
  "on_timeout P autoValidate st =
     (let st0 = st\<lparr>timer := None\<rparr> in
      if autoValidate then
        (case validate P st0 of
           (Return True, st1) \<Rightarrow> st1\<lparr>status := ustr ''Looks good '' @ [10003]\<rparr>
         | (_, st1) \<Rightarrow> st1)
      else st0)"

subsection \<open>\<open>formatJson\<close>, \<open>minifyJson\<close> and \<open>sortKeys\<close> (lines 139-194)\<close>

text \<open>
  \<^verbatim>\<open>
  const formatJson = () => {
    const text = cm.current.getValue();
    try {
      const obj = window.jsonlint.parse(text);
      const pretty = JSON.stringify(obj, null, indent);
      cm.current.setValue(pretty);
      setStatus(`Formatted with ${indent} spaces.`);
      setStatusType('success');
      updateKpis();
    } catch (e) {
      validate();
    }
  };
  \<close>
  \<open>minifyJson\<close> is the same with \<open>JSON.stringify(obj)\<close> and the status
  \<open>'Minified JSON.'\<close>, \<open>sortKeys\<close> with
  \<open>JSON.stringify(sortKeysDeep(obj), null, 2)\<close> and the status
  \<open>'Sorted keys recursively.'\<close>.  \<open>decimal\<close> writes the indent in the status.
  Each function gives the state it leaves; where \<open>validate\<close> throws, it ends by that
  exception, in the state \<open>validate\<close> leaves.
\<close>

fun decimal :: "nat \<Rightarrow> jstring" where
  "decimal n = (if n < 10 then [48 + n] else decimal (n div 10) @ [48 + n mod 10])"

definition formatJson ::
  "(jstring \<Rightarrow> parse_error + 'n json) \<Rightarrow> (jstring \<Rightarrow> 'n json option) \<Rightarrow> ('n \<Rightarrow> jstring)
   \<Rightarrow> nat \<Rightarrow> nat \<Rightarrow> app \<Rightarrow> app" where
  "formatJson P J nt indent now st =
     (case P (cm_value st) of
        Inr obj \<Rightarrow>
          updateKpis J
            ((setValue J now (JSON_stringify nt indent obj) st)
               \<lparr>status := ustr ''Formatted with '' @ decimal indent @ ustr '' spaces.'',
                statusType := Some Success\<rparr>)
      | Inl e \<Rightarrow> snd (validate P st))"

definition minifyJson ::
  "(jstring \<Rightarrow> parse_error + 'n json) \<Rightarrow> (jstring \<Rightarrow> 'n json option) \<Rightarrow> ('n \<Rightarrow> jstring)
   \<Rightarrow> nat \<Rightarrow> app \<Rightarrow> app" where
  "minifyJson P J nt now st =
     (case P (cm_value st) of
        Inr obj \<Rightarrow>
          updateKpis J
            ((setValue J now (JSON_stringify nt 0 obj) st)
               \<lparr>status := ustr ''Minified JSON.'', statusType := Some Success\<rparr>)
      | Inl e \<Rightarrow> snd (validate P st))"

definition sortKeys ::
  "(jstring \<Rightarrow> parse_error + 'n json) \<Rightarrow> (jstring \<Rightarrow> 'n json option) \<Rightarrow> ('n \<Rightarrow> jstring)
   \<Rightarrow> (jstring \<Rightarrow> jstring \<Rightarrow> int) \<Rightarrow> nat \<Rightarrow> app \<Rightarrow> app" where
  "sortKeys P J nt lc now st =
     (case P (cm_value st) of
        Inr obj \<Rightarrow>
          updateKpis J
            ((setValue J now (JSON_stringify nt 2 (sortKeysDeep lc obj)) st)
               \<lparr>status := ustr ''Sorted keys recursively.'', statusType := Some Success\<rparr>)
      | Inl e \<Rightarrow> snd (validate P st))"

subsection \<open>The page as a system of events\<close>

text \<open>
  What the page is given from outside: the parser library, the host's \<open>JSON.parse\<close>,
  number formatting and collation, the indent chosen in the toolbar and the
  \<open>autoValidate\<close> flag held by the change handler.
\<close>

record 'n host =
  jsonlint_parse :: "jstring \<Rightarrow> parse_error + 'n json"
  json_parse :: "jstring \<Rightarrow> 'n json option"
  number_text :: "'n \<Rightarrow> jstring"
  localeCompare :: "jstring \<Rightarrow> jstring \<Rightarrow> int"
  indent :: nat
  autoValidate :: bool

datatype button = Validate | Format | Minify | SortKeys

text \<open>
  An edit of the document, the passing of some milliseconds, the run of the pending
  timer's callback, a press of one of the four buttons, and a change of what the editor
  displays (by scrolling, or after a change of the document).  The callback can run only
  when its timer is due; until it runs, a later change of the document still cancels it.
\<close>

datatype event = Edit jstring | Pass nat | Fire | Press button | Scroll bool

fun handle :: "'n host \<Rightarrow> event \<Rightarrow> nat \<times> app \<Rightarrow> (nat \<times> app) option" where
  "handle h (Edit s) (now, st) = Some (now, setValue (json_parse h) now s st)"
| "handle h (Pass d) (now, st) = Some (now + d, st)"
| "handle h Fire (now, st) =
     (case timer st of
        None \<Rightarrow> None
      | Some due \<Rightarrow>
          if due \<le> now
          then Some (now, on_timeout (jsonlint_parse h) (autoValidate h) st)
          else None)"
| "handle h (Press Validate) (now, st) = Some (now, snd (validate (jsonlint_parse h) st))"
| "handle h (Press Format) (now, st) =
     Some (now, formatJson (jsonlint_parse h) (json_parse h) (number_text h) (indent h) now st)"
| "handle h (Press Minify) (now, st) =
     Some (now, minifyJson (jsonlint_parse h) (json_parse h) (number_text h) now st)"
| "handle h (Press SortKeys) (now, st) =
     Some (now, sortKeys (jsonlint_parse h) (json_parse h) (number_text h) (localeCompare h)
                  now st)"
| "handle h (Scroll b) (now, st) = Some (now, st\<lparr>end_hidden := b\<rparr>)"

fun exec :: "'n host \<Rightarrow> event list \<Rightarrow> nat \<times> app \<Rightarrow> (nat \<times> app) option" where
  "exec h [] c = Some c"
| "exec h (e # es) c = (case handle h e c of None \<Rightarrow> None | Some c' \<Rightarrow> exec h es c')"

subsection \<open>Notions used to state the properties\<close>

text \<open>
  \<open>pattern_match w m ds\<close>: somewhere in \<open>m\<close> the word \<open>w\<close> (in any case) is
  followed by white space and then by the digits \<open>ds\<close>, which no further digit
  follows.
\<close>

definition pattern_match :: "jstring \<Rightarrow> jstring \<Rightarrow> jstring \<Rightarrow> bool" where
  "pattern_match w m ds =
     (\<exists>pre u ws rest.
        m = pre @ u @ ws @ ds @ rest \<and> map upper u = map upper w
        \<and> ws \<noteq> [] \<and> list_all js_ws ws \<and> ds \<noteq> [] \<and> list_all is_digit ds
        \<and> (rest = [] \<or> \<not> is_digit (hd rest)))"

text \<open>Well-formedness of the objects, frames and states of the parser.\<close>

definition wf_obj :: "(jstring \<times> 'n json) list \<Rightarrow> bool" where
  "wf_obj ps = (distinct (map fst ps) \<and> prop_ordered (map fst ps) \<and> list_all (\<lambda>p. wf_json (snd p)) ps)"

fun wf_frame :: "'n frame \<Rightarrow> bool" where
  "wf_frame (InArr xs) = list_all wf_json xs"
| "wf_frame (InObj ps k) = wf_obj ps"

fun wf_state :: "'n pstate \<Rightarrow> bool" where
  "wf_state (PValue st) = list_all wf_frame st"
| "wf_state (PArrFirst st) = list_all wf_frame st"
| "wf_state (PArrNext xs st) = (list_all wf_json xs \<and> list_all wf_frame st)"
| "wf_state (PObjFirst st) = list_all wf_frame st"
| "wf_state (PObjKey ps st) = (wf_obj ps \<and> list_all wf_frame st)"
| "wf_state (PObjColon ps k st) = (wf_obj ps \<and> list_all wf_frame st)"
| "wf_state (PObjNext ps st) = (wf_obj ps \<and> list_all wf_frame st)"
| "wf_state (PDone v) = wf_json v"







text \<open>
  The tokens of the text of a value; the texts that cannot continue a number literal;
  the values all of whose numbers the host writes (\<open>nt\<close>) as literals that it reads
  back (\<open>tn\<close>) as the same numbers.
\<close>

fun tokens_of :: "'n json \<Rightarrow> 'n token list" where
  "tokens_of JNull = [TNull]"
| "tokens_of (JBool b) = [if b then TTrue else TFalse]"
| "tokens_of (JNum n) = [TNumber n]"
| "tokens_of (JStr s) = [TString s]"
| "tokens_of (JArr xs) = [TLBrack] @ join [TComma] (map tokens_of xs) @ [TRBrack]"
| "tokens_of (JObj ps) =
     [TLBrace] @ join [TComma] (map (\<lambda>p. TString (fst p) # TColon # tokens_of (snd p)) ps)
     @ [TRBrace]"

definition number_end :: "jstring \<Rightarrow> bool" where
  "number_end rest = (case rest of [] \<Rightarrow> True | c # _ \<Rightarrow> \<not> is_digit c \<and> c \<noteq> 46 \<and> c \<noteq> 101 \<and> c \<noteq> 69)"

fun nums_ok :: "(jstring \<Rightarrow> 'n) \<Rightarrow> ('n \<Rightarrow> jstring) \<Rightarrow> 'n json \<Rightarrow> bool" where
  "nums_ok tn nt (JNum n) = (lex_number (nt n) = Some (nt n, []) \<and> tn (nt n) = n)"
| "nums_ok tn nt (JArr xs) = list_all (nums_ok tn nt) xs"
| "nums_ok tn nt (JObj ps) = list_all (\<lambda>p. nums_ok tn nt (snd p)) ps"
| "nums_ok tn nt v = True"

section \<open>Properties of \<open>sortKeysDeep\<close>\<close>

subsection \<open>Array indices\<close>

lemma insert_index_sorted:
  "list_all (\<lambda>p. is_array_index (fst p)) A \<Longrightarrow> list_all (\<lambda>p. \<not> is_array_index (fst p)) B \<Longrightarrow>
   insert_index k v (A @ B) = insort_key (digits_val \<circ> fst) (k, v) A @ B"
proof (induction A)
  case Nil
  then show ?case by (cases B) auto
next
  case (Cons a A)
  then show ?case by (auto simp: not_less)
qed

lemma digits_val_snoc: "digits_val (xs @ [d]) = 10 * digits_val xs + (d - 48)"
  by (simp add: digits_val_def)

lemma digits_val_upper: "list_all is_digit xs \<Longrightarrow> digits_val xs < 10 ^ length xs"
proof (induction xs rule: rev_induct)
  case Nil then show ?case by (simp add: digits_val_def)
next
  case (snoc d xs)
  then have "digits_val xs < 10 ^ length xs" "d - 48 < 10" by (auto simp: is_digit_def)
  then show ?case by (simp add: digits_val_snoc)
qed

lemma digits_val_lower:
  "list_all is_digit xs \<Longrightarrow> xs \<noteq> [] \<Longrightarrow> hd xs \<noteq> 48 \<Longrightarrow> 10 ^ (length xs - 1) \<le> digits_val xs"
proof (induction xs rule: rev_induct)
  case Nil then show ?case by simp
next
  case (snoc d xs)
  show ?case
  proof (cases "xs = []")
    case True
    with snoc.prems show ?thesis by (auto simp: digits_val_def is_digit_def)
  next
    case False
    with snoc have "10 ^ (length xs - 1) \<le> digits_val xs" by auto
    then have "10 * 10 ^ (length xs - 1) \<le> 10 * digits_val xs" by simp
    moreover have "10 * 10 ^ (length xs - 1) = (10::nat) ^ length xs"
      using False by (cases xs) auto
    ultimately show ?thesis by (simp add: digits_val_snoc)
  qed
qed

lemma digits_val_inj_same_length:
  "length xs = length ys \<Longrightarrow> list_all is_digit xs \<Longrightarrow> list_all is_digit ys \<Longrightarrow>
   digits_val xs = digits_val ys \<Longrightarrow> xs = ys"
proof (induction xs arbitrary: ys rule: rev_induct)
  case Nil then show ?case by simp
next
  case (snoc d xs)
  then obtain e ys' where ys: "ys = ys' @ [e]" by (cases ys rule: rev_cases) auto
  from snoc.prems ys have d: "d - 48 < 10" "e - 48 < 10" "48 \<le> d" "48 \<le> e"
    by (auto simp: is_digit_def)
  from snoc.prems ys have eq: "10 * digits_val xs + (d - 48) = 10 * digits_val ys' + (e - 48)"
    by (simp add: digits_val_snoc)
  from arg_cong[OF eq, of "\<lambda>n. n div 10"] d(1,2) have v: "digits_val xs = digits_val ys'"
    by simp
  with eq d(3,4) have "d = e" by simp
  with v snoc ys show ?case by auto
qed

lemma array_index_inj:
  assumes "is_array_index a" "is_array_index b" "digits_val a = digits_val b"
  shows "a = b"
proof -
  have len: "length x = length y" if x: "is_array_index x" and y: "is_array_index y"
    and eq: "digits_val x = digits_val y" and le: "length x \<le> length y" for x y
  proof (rule ccontr)
    assume "length x \<noteq> length y"
    with le have lt: "length x < length y" by simp
    from y have dy: "list_all is_digit y" "y \<noteq> []" by (auto simp: is_array_index_def)
    from x have dx: "list_all is_digit x" "x \<noteq> []" by (auto simp: is_array_index_def)
    have "hd y \<noteq> 48"
    proof
      assume "hd y = 48"
      with y have "y = [48]" by (auto simp: is_array_index_def)
      with lt dx show False by (cases x) auto
    qed
    with dy have "10 ^ (length y - 1) \<le> digits_val y" by (rule digits_val_lower)
    moreover have "digits_val x < 10 ^ length x" using dx by (simp add: digits_val_upper)
    moreover have "(10::nat) ^ length x \<le> 10 ^ (length y - 1)"
      using lt by (intro power_increasing) auto
    ultimately show False using eq by linarith
  qed
  have "length a = length b"
    using len[of a b] len[of b a] assms by (cases "length a \<le> length b") auto
  with assms show ?thesis
    by (auto simp: is_array_index_def intro: digits_val_inj_same_length)
qed

subsection \<open>Assigning the sorted keys one by one\<close>

lemma insort_key_map_fst:
  "(\<And>x. fst (h x) = x) \<Longrightarrow>
   insort_key (f \<circ> fst) (h k) (map h xs) = map h (insort_key f k xs)"
  by (induction xs) auto

lemma sort_key_index_snoc:
  assumes "list_all is_array_index A" "is_array_index k"
  shows "sort_key digits_val (A @ [k]) = insort_key digits_val k (sort_key digits_val A)"
proof (rule sort_key_inj_key_eq)
  show "mset (A @ [k]) = mset (insort_key digits_val k (sort_key digits_val A))" by simp
  show "inj_on digits_val (set (A @ [k]))"
    using assms by (auto simp: inj_on_def list_all_iff intro: array_index_inj)
  show "sorted (map digits_val (insort_key digits_val k (sort_key digits_val A)))"
    by (simp add: sorted_insort_key)
qed

lemma proto_not_index: "\<not> is_array_index (ustr ''__proto__'')"
  by (simp add: is_array_index_def ustr_def is_digit_def)

lemma set_own_order: "set (own_order L) = set L - {ustr ''__proto__''}"
  using proto_not_index by (auto simp: own_order_def)

lemma assign_own_order:
  assumes h: "\<And>x. fst (h x) = x" and k: "k \<notin> set L"
  shows "js_assign k (snd (h k)) (map h (own_order L)) = map h (own_order (L @ [k]))"
proof (cases "k = ustr ''__proto__''")
  case True
  then show ?thesis using proto_not_index by (simp add: js_assign_def own_order_def)
next
  case False
  have fst_h: "map fst (map h xs) = xs" for xs by (induction xs) (auto simp: h)
  have hk: "(k, snd (h k)) = h k" using h[of k] by (cases "h k") auto
  have notin: "k \<notin> set (map fst (map h (own_order L)))"
    using k by (simp only: fst_h set_own_order) auto
  show ?thesis
  proof (cases "is_array_index k")
    case True
    have "insert_index k (snd (h k))
            (map h (sort_key digits_val (filter is_array_index L))
             @ map h (filter (\<lambda>k. \<not> is_array_index k \<and> k \<noteq> ustr ''__proto__'') L))
          = insort_key (digits_val \<circ> fst) (k, snd (h k))
              (map h (sort_key digits_val (filter is_array_index L)))
            @ map h (filter (\<lambda>k. \<not> is_array_index k \<and> k \<noteq> ustr ''__proto__'') L)"
      by (rule insert_index_sorted) (auto simp: list_all_iff h)
    also have "insort_key (digits_val \<circ> fst) (k, snd (h k))
              (map h (sort_key digits_val (filter is_array_index L)))
         = map h (insort_key digits_val k (sort_key digits_val (filter is_array_index L)))"
      unfolding hk by (rule insort_key_map_fst) (rule h)
    also have "insort_key digits_val k (sort_key digits_val (filter is_array_index L))
         = sort_key digits_val (filter is_array_index L @ [k])"
      using True by (intro sort_key_index_snoc[symmetric]) (auto simp: list_all_iff)
    finally show ?thesis
      using True False notin
      by (simp add: js_assign_def property_set_def own_order_def del: set_map map_map)
  next
    case nidx: False
    then show ?thesis
      using False notin hk
      by (simp add: js_assign_def property_set_def own_order_def del: set_map map_map)
  qed
qed

lemma fold_assign_own_order:
  assumes "distinct L" "set L \<subseteq> set (map fst ps)"
  shows "fold (\<lambda>k sorted. case map_of ps k of None \<Rightarrow> sorted
                | Some v \<Rightarrow> js_assign k (g v) sorted) L []
         = map (\<lambda>k. (k, g (the (map_of ps k)))) (own_order L)"
  using assms
proof (induction L rule: rev_induct)
  case Nil
  then show ?case by (simp add: own_order_def)
next
  case (snoc k L)
  then obtain v where v: "map_of ps k = Some v"
    by (cases "map_of ps k") (auto simp: map_of_eq_None_iff)
  let ?h = "\<lambda>k. (k, g (the (map_of ps k)))"
  have "js_assign k (snd (?h k)) (map ?h (own_order L)) = map ?h (own_order (L @ [k]))"
    by (rule assign_own_order) (use snoc.prems in auto)
  with snoc v show ?case by simp
qed

lemma mset_insort_by: "mset (insort_by cmp x xs) = add_mset x (mset xs)"
  by (induction xs) auto

lemma mset_js_sort: "mset (js_sort cmp xs) = mset xs"
  by (induction xs) (auto simp: js_sort_def mset_insort_by)

lemma set_js_sort: "set (js_sort cmp xs) = set xs"
  by (metis mset_js_sort set_mset_mset)

lemma distinct_js_sort: "distinct (js_sort cmp xs) = distinct xs"
  by (metis mset_js_sort mset_eq_imp_distinct_iff)

lemma sortKeysDeep_object:
  assumes "distinct (map fst ps)"
  shows "sortKeysDeep lc (JObj ps) =
         JObj (map (\<lambda>k. (k, sortKeysDeep lc (the (map_of ps k))))
                 (own_order (js_sort lc (map fst ps))))"
  using assms by (simp add: fold_assign_own_order distinct_js_sort set_js_sort del: set_map)

subsection \<open>The stable sort\<close>

lemma consistentD:
  assumes "consistent cmp"
  shows "\<not> cmp a b \<le> 0 \<Longrightarrow> cmp b a \<le> 0"
    and "cmp a b \<le> 0 \<Longrightarrow> cmp b c \<le> 0 \<Longrightarrow> cmp a c \<le> 0"
  using assms unfolding consistent_def by blast+

lemma set_insort_by: "set (insort_by cmp x xs) = insert x (set xs)"
  by (induction xs) auto

lemma sorted_insort_by:
  assumes c: "consistent cmp"
  shows "sorted_wrt (\<lambda>a b. cmp a b \<le> 0) xs \<Longrightarrow> sorted_wrt (\<lambda>a b. cmp a b \<le> 0) (insort_by cmp x xs)"
proof (induction xs)
  case Nil then show ?case by simp
next
  case (Cons y ys)
  show ?case
  proof (cases "cmp x y \<le> 0")
    case True
    with Cons.prems consistentD(2)[OF c] show ?thesis by auto
  next
    case False
    with Cons consistentD(1)[OF c] show ?thesis by (auto simp: set_insort_by)
  qed
qed

lemma sorted_js_sort:
  "consistent cmp \<Longrightarrow> sorted_wrt (\<lambda>a b. cmp a b \<le> 0) (js_sort cmp xs)"
  by (induction xs) (auto simp: js_sort_def sorted_insort_by)

lemma js_sort_Cons: "js_sort cmp (x # xs) = insort_by cmp x (js_sort cmp xs)"
  by (simp add: js_sort_def)

lemma js_sort_Nil: "js_sort cmp [] = []"
  by (simp add: js_sort_def)

lemma js_sort_sorted_id:
  "sorted_wrt (\<lambda>a b. cmp a b \<le> 0) xs \<Longrightarrow> js_sort cmp xs = xs"
proof (induction xs)
  case Nil then show ?case by (simp add: js_sort_Nil)
next
  case (Cons x xs)
  then show ?case by (cases xs) (auto simp: js_sort_Cons)
qed

lemma filter_insort_by:
  assumes c: "consistent cmp"
  shows "sorted_wrt (\<lambda>a b. cmp a b \<le> 0) ys \<Longrightarrow>
         filter P (insort_by cmp x ys) =
           (if P x then insort_by cmp x (filter P ys) else filter P ys)"
proof (induction ys)
  case Nil then show ?case by simp
next
  case (Cons y ys)
  show ?case
  proof (cases "cmp x y \<le> 0")
    case True
    have "\<forall>z\<in>set (y # ys). cmp x z \<le> 0"
      using True Cons.prems consistentD(2)[OF c] by auto
    then have "\<forall>z\<in>set (filter P (y # ys)). cmp x z \<le> 0" by auto
    then have "insort_by cmp x (filter P (y # ys)) = x # filter P (y # ys)"
      by (cases "filter P (y # ys)") (simp_all del: filter.simps)
    with True show ?thesis by simp
  next
    case False
    with Cons show ?thesis by auto
  qed
qed

lemma filter_js_sort:
  "consistent cmp \<Longrightarrow> filter P (js_sort cmp xs) = js_sort cmp (filter P xs)"
  by (induction xs) (auto simp: js_sort_Cons js_sort_Nil filter_insort_by sorted_js_sort)

lemma own_order_idem:
  assumes c: "consistent lc"
  shows "own_order (js_sort lc (own_order (js_sort lc ks))) = own_order (js_sort lc ks)"
proof -
  define N where "N = own_order (js_sort lc ks)"
  let ?L = "js_sort lc ks"
  let ?np = "\<lambda>k. \<not> is_array_index k \<and> k \<noteq> ustr ''__proto__''"
  let ?I = "sort_key digits_val (filter is_array_index ?L)"
  let ?R = "filter ?np ?L"
  have N: "N = ?I @ ?R" by (simp add: N_def own_order_def)
  have fI: "filter is_array_index N = ?I"
    unfolding N by (auto simp: filter_empty_conv filter_id_conv)
  have fR: "filter ?np N = ?R"
    unfolding N using proto_not_index by (auto simp: filter_empty_conv filter_id_conv)
  have "mset (filter is_array_index (js_sort lc N)) = mset ?I"
    by (simp only: mset_filter mset_js_sort flip: fI)
  moreover have "inj_on digits_val (set (filter is_array_index (js_sort lc N)))"
    by (auto simp: inj_on_def intro: array_index_inj)
  moreover have "sorted (map digits_val ?I)" by simp
  ultimately have 1: "sort_key digits_val (filter is_array_index (js_sort lc N)) = ?I"
    by (rule sort_key_inj_key_eq)
  have "sorted_wrt (\<lambda>a b. lc a b \<le> 0) ?R"
    by (intro sorted_wrt_filter sorted_js_sort c)
  then have 2: "filter ?np (js_sort lc N) = ?R"
    by (simp add: filter_js_sort[OF c] fR js_sort_sorted_id)
  have "own_order (js_sort lc N) =
        sort_key digits_val (filter is_array_index (js_sort lc N)) @ filter ?np (js_sort lc N)"
    by (simp add: own_order_def)
  also have "\<dots> = ?I @ ?R" by (simp only: 1 2)
  finally have "own_order (js_sort lc N) = N" by (simp only: N)
  then show ?thesis by (simp only: N_def)
qed

lemma map_of_map_key: "k \<in> set N \<Longrightarrow> map_of (map (\<lambda>k. (k, f k)) N) k = Some (f k)"
  by (induction N) auto

lemma distinct_own_order: "distinct L \<Longrightarrow> distinct (own_order L)"
  by (auto simp: own_order_def)

lemma sortKeysDeep_idem:
  assumes c: "consistent lc"
  shows "wf_json v \<Longrightarrow> sortKeysDeep lc (sortKeysDeep lc v) = sortKeysDeep lc v"
proof (induction v)
  case (JArr xs)
  then show ?case by (auto simp: list_all_iff)
next
  case (JObj ps)
  let ?g = "sortKeysDeep lc"
  let ?N = "own_order (js_sort lc (map fst ps))"
  let ?h = "\<lambda>k. (k, ?g (the (map_of ps k)))"
  let ?R1 = "map ?h ?N"
  from JObj.prems have d: "distinct (map fst ps)" by simp
  have fstR1: "map fst ?R1 = ?N" by (simp add: comp_def)
  have dN: "distinct ?N" using d by (simp add: distinct_own_order distinct_js_sort)
  have 1: "?g (JObj ps) = JObj ?R1" using d by (rule sortKeysDeep_object)
  have "?g (JObj ?R1) = JObj (map (\<lambda>k. (k, ?g (the (map_of ?R1 k)))) (own_order (js_sort lc (map fst ?R1))))"
    by (rule sortKeysDeep_object) (simp only: fstR1 dN)
  also have "own_order (js_sort lc (map fst ?R1)) = ?N"
    unfolding fstR1 by (rule own_order_idem[OF c])
  also have "map (\<lambda>k. (k, ?g (the (map_of ?R1 k)))) ?N = ?R1"
  proof (rule map_cong[OF refl])
    fix k assume k: "k \<in> set ?N"
    then have "k \<in> set (map fst ps)" by (auto simp: set_own_order set_js_sort)
    then obtain v where v: "map_of ps k = Some v"
      by (cases "map_of ps k") (auto simp: map_of_eq_None_iff)
    then have in_ps: "(k, v) \<in> set ps" by (rule map_of_SomeD)
    with JObj.prems have "wf_json v" by (auto simp: list_all_iff)
    with JObj.IH in_ps have "?g (?g v) = ?g v" by fastforce
    moreover have "map_of ?R1 k = Some (?g (the (map_of ps k)))"
      using k by (rule map_of_map_key)
    ultimately show "(k, ?g (the (map_of ?R1 k))) = (k, ?g (the (map_of ps k)))"
      using v by simp
  qed
  finally show ?case using 1 by simp
qed simp_all

subsection \<open>The code-unit comparator and the order of the result\<close>

lemma cu_less_iff: "cu_less a b \<longleftrightarrow> a < b"
  by (induction a b rule: cu_less.induct) auto

lemma cp_compare_le: "cp_compare a b \<le> 0 \<longleftrightarrow> a \<le> b"
  by (auto simp: cp_compare_def cu_less_iff)

lemma consistent_cp_compare: "consistent cp_compare"
  unfolding consistent_def cp_compare_le by auto

lemma prop_ordered_own_order: "distinct L \<Longrightarrow> prop_ordered (own_order L)"
proof -
  assume d: "distinct L"
  let ?I = "sort_key digits_val (filter is_array_index L)"
  have "inj_on digits_val (set ?I)"
    by (auto simp: inj_on_def intro: array_index_inj)
  moreover have "distinct ?I" using d by simp
  ultimately have "distinct (map digits_val ?I)" by (simp only: distinct_map)
  moreover have "sorted (map digits_val ?I)" by simp
  ultimately have "sorted_wrt (<) (map digits_val ?I)"
    by (simp only: strict_sorted_iff)
  then have "sorted_wrt (\<lambda>a b. digits_val a < digits_val b) ?I"
    by (simp only: sorted_wrt_map)
  then have "sorted_wrt key_before ?I"
    by (rule sorted_wrt_mono_rel[rotated]) (auto simp: key_before_def)
  moreover have "sorted_wrt key_before
      (filter (\<lambda>k. \<not> is_array_index k \<and> k \<noteq> ustr ''__proto__'') L)"
    by (rule sorted_wrt_mono_rel[of _ "\<lambda>_ _. True"]) (auto simp: key_before_def)
  ultimately show ?thesis
    by (auto simp: own_order_def prop_ordered_def sorted_wrt_append key_before_def)
qed

lemma sortKeysDeep_sorted:
  assumes c: "consistent lc"
  shows "wf_json v \<Longrightarrow> wf_json (sortKeysDeep lc v) \<and> locale_sorted lc (sortKeysDeep lc v)"
proof (induction v)
  case (JArr xs)
  then show ?case by (auto simp: list_all_iff)
next
  case (JObj ps)
  let ?g = "sortKeysDeep lc"
  let ?L = "js_sort lc (map fst ps)"
  let ?N = "own_order ?L"
  let ?h = "\<lambda>k. (k, ?g (the (map_of ps k)))"
  from JObj.prems have d: "distinct (map fst ps)" by simp
  have 1: "?g (JObj ps) = JObj (map ?h ?N)" using d by (rule sortKeysDeep_object)
  have fst: "map fst (map ?h ?N) = ?N" by (simp add: comp_def)
  have dL: "distinct ?L" using d by (simp add: distinct_js_sort)
  have vals: "wf_json (?g (the (map_of ps k))) \<and> locale_sorted lc (?g (the (map_of ps k)))"
    if "k \<in> set ?N" for k
  proof -
    from that have "k \<in> set (map fst ps)" by (auto simp: set_own_order set_js_sort)
    then obtain v where v: "map_of ps k = Some v"
      by (cases "map_of ps k") (auto simp: map_of_eq_None_iff)
    then have in_ps: "(k, v) \<in> set ps" by (rule map_of_SomeD)
    with JObj.prems have "wf_json v" by (auto simp: list_all_iff)
    with JObj.IH in_ps v show ?thesis by fastforce
  qed
  have "filter (\<lambda>k. \<not> is_array_index k) ?N
          = filter (\<lambda>k. \<not> is_array_index k \<and> k \<noteq> ustr ''__proto__'') ?L"
    by (auto simp: own_order_def filter_empty_conv intro: filter_cong)
  moreover have "sorted_wrt (\<lambda>a b. lc a b \<le> 0) \<dots>"
    by (intro sorted_wrt_filter sorted_js_sort c)
  ultimately have s: "sorted_wrt (\<lambda>a b. lc a b \<le> 0) (filter (\<lambda>k. \<not> is_array_index k) ?N)"
    by simp
  show ?case
    unfolding 1 wf_json.simps locale_sorted.simps fst
    using s vals dL by (auto simp: list_all_iff distinct_own_order prop_ordered_own_order)
qed simp_all

section \<open>Properties of the editor functions\<close>

lemma trim_blank: "list_all js_ws s \<Longrightarrow> trim s = []"
  by (auto simp: trim_def list_all_iff dest: set_dropWhileD)

lemma please_enter_no_position: "extractLineCol (ustr ''Please enter JSON.'') = (None, None)"
  by (simp add: extractLineCol_def re_at_def ustr_def upper_def)

lemma validate_cm_value: "cm_value (snd (validate P st)) = cm_value st"
  by (auto simp: validate_def scrollToError_def Let_def
      split: sum.splits option.splits prod.splits if_splits)

lemma digit_not_ws: "is_digit c \<Longrightarrow> \<not> js_ws c"
  by (auto simp: is_digit_def js_ws_def)

lemma re_at_sound:
  assumes "re_at w s = Some ds"
  shows "\<exists>u ws rest. s = u @ ws @ ds @ rest \<and> map upper u = map upper w
        \<and> ws \<noteq> [] \<and> list_all js_ws ws \<and> ds \<noteq> [] \<and> list_all is_digit ds
        \<and> (rest = [] \<or> \<not> is_digit (hd rest))"
proof -
  let ?r = "drop (length w) s"
  let ?r' = "dropWhile js_ws ?r"
  from assms have u: "map upper (take (length w) s) = map upper w"
    and ws: "takeWhile js_ws ?r \<noteq> []"
    and ds: "ds = takeWhile is_digit ?r'" "ds \<noteq> []"
    by (auto simp: re_at_def Let_def split: if_splits)
  have "s = take (length w) s @ takeWhile js_ws ?r @ ds @ dropWhile is_digit ?r'"
    by (simp add: ds)
  moreover have "list_all js_ws (takeWhile js_ws ?r)" "list_all is_digit ds"
    by (auto simp: list_all_iff ds dest: set_takeWhileD)
  moreover have "dropWhile is_digit ?r' = [] \<or> \<not> is_digit (hd (dropWhile is_digit ?r'))"
    using hd_dropWhile[of is_digit ?r'] by blast
  ultimately show ?thesis using u ws ds(2) by blast
qed

lemma re_find_sound: "re_find w m = Some ds \<Longrightarrow> pattern_match w m ds"
proof (induction m)
  case Nil
  from re_at_sound[of w "[]" ds] Nil show ?case
    unfolding pattern_match_def by (metis append_Nil re_find.simps(1))
next
  case (Cons c m)
  show ?case
  proof (cases "re_at w (c # m)")
    case (Some d)
    with Cons.prems have "re_at w (c # m) = Some ds" by simp
    from re_at_sound[OF this] show ?thesis
      unfolding pattern_match_def by (metis append_Nil)
  next
    case None
    with Cons have "pattern_match w m ds" by simp
    then obtain pre u ws rest where
      "m = pre @ u @ ws @ ds @ rest" "map upper u = map upper w"
      "ws \<noteq> []" "list_all js_ws ws" "ds \<noteq> []" "list_all is_digit ds"
      "rest = [] \<or> \<not> is_digit (hd rest)"
      unfolding pattern_match_def by blast
    then have "c # m = (c # pre) @ u @ ws @ ds @ rest" by simp
    then show ?thesis
      unfolding pattern_match_def
      using \<open>map upper u = map upper w\<close> \<open>ws \<noteq> []\<close> \<open>list_all js_ws ws\<close> \<open>ds \<noteq> []\<close>
        \<open>list_all is_digit ds\<close> \<open>rest = [] \<or> \<not> is_digit (hd rest)\<close>
      by blast
  qed
qed

lemma re_at_complete:
  assumes "map upper u = map upper w" "ws \<noteq> []" "list_all js_ws ws" "ds \<noteq> []"
    "list_all is_digit ds"
  shows "re_at w (u @ ws @ ds @ rest) \<noteq> None"
proof -
  from assms(1) have len: "length u = length w" by (metis length_map)
  obtain d ds' where ds: "ds = d # ds'" using assms(4) by (cases ds) auto
  with assms(5) have d: "is_digit d" "\<not> js_ws d" by (auto simp: digit_not_ws)
  have tw: "takeWhile js_ws (ws @ ds @ rest) = ws"
    using assms(3) d ds by (simp add: takeWhile_append2 list_all_iff)
  have dw: "dropWhile js_ws (ws @ ds @ rest) = ds @ rest"
    using assms(3) d ds by (simp add: dropWhile_append2 list_all_iff)
  have "takeWhile is_digit (ds @ rest) \<noteq> []" using d ds by simp
  with tw dw assms(1,2) len show ?thesis by (simp add: re_at_def)
qed

lemma re_find_complete: "pattern_match w m ds \<Longrightarrow> re_find w m \<noteq> None"
proof -
  assume "pattern_match w m ds"
  then obtain pre u ws rest where m: "m = pre @ u @ ws @ ds @ rest"
    and p: "map upper u = map upper w" "ws \<noteq> []" "list_all js_ws ws" "ds \<noteq> []"
      "list_all is_digit ds"
    unfolding pattern_match_def by blast
  have "re_find w (pre @ u @ ws @ ds @ rest) \<noteq> None"
  proof (induction pre)
    case Nil
    from re_at_complete[OF p, of rest] show ?case
      by (cases "u @ ws @ ds @ rest") (auto split: option.splits)
  next
    case (Cons c pre)
    then show ?case by (auto split: option.splits)
  qed
  with m show ?thesis by simp
qed

lemma splitLines_nonempty: "splitLines s \<noteq> []"
  by (induction s rule: splitLines.induct) (auto split: list.splits)

lemma lineCount_no_cr: "13 \<notin> set s \<Longrightarrow> lineCount s = Suc (count_list s 10)"
  unfolding lineCount_def
  by (induction s rule: splitLines.induct) (auto split: list.splits simp: splitLines_nonempty)

lemma lineCount_examples:
  "lineCount [] = 1"
  "lineCount (ustr ''a'' @ [10] @ ustr ''b'') = 2"
  "lineCount (ustr ''a'' @ [10] @ ustr ''b'' @ [10]) = 3"
  "lineCount (ustr ''a'' @ [10] @ ustr ''b'' @ [10] @ ustr ''c'') = 3"
  by (simp_all add: lineCount_def ustr_def)

section \<open>Properties of the parser\<close>

subsection \<open>Parsed values are well formed\<close>

lemma wf_json_obj: "wf_json (JObj ps) = wf_obj ps"
  by (simp add: wf_obj_def)

lemma keys_replace_value: "map fst (replace_value k v ps) = map fst ps"
  by (induction ps) auto

lemma set_replace_value: "set (replace_value k v ps) \<subseteq> insert (k, v) (set ps)"
  by (induction ps) auto

lemma set_insert_index: "set (insert_index k v ps) = insert (k, v) (set ps)"
  by (induction ps) auto

lemma distinct_insert_index:
  "k \<notin> set (map fst ps) \<Longrightarrow> distinct (map fst ps) \<Longrightarrow> distinct (map fst (insert_index k v ps))"
  by (induction ps) (auto simp: set_insert_index)

lemma ordered_insert_index:
  assumes "is_array_index k"
  shows "k \<notin> set (map fst ps) \<Longrightarrow> sorted_wrt key_before (map fst ps) \<Longrightarrow>
         sorted_wrt key_before (map fst (insert_index k v ps))"
proof (induction ps)
  case Nil
  then show ?case by simp
next
  case (Cons p ps)
  show ?case
  proof (cases "is_array_index (fst p) \<and> digits_val (fst p) < digits_val k")
    case True
    with Cons assms show ?thesis
      by (auto simp: set_insert_index key_before_def)
  next
    case False
    have "key_before k y" if y: "y \<in> set (map fst (p # ps))" for y
    proof (unfold key_before_def, intro impI conjI assms)
      assume iy: "is_array_index y"
      have ne: "y \<noteq> k" using y Cons.prems(1) by auto
      show "digits_val k < digits_val y"
      proof (cases "y = fst p")
        case True
        with False iy have "digits_val k \<le> digits_val y" by auto
        moreover have "digits_val k \<noteq> digits_val y"
          using array_index_inj[OF assms iy] ne by auto
        ultimately show ?thesis by simp
      next
        case ny: False
        with y have "y \<in> set (map fst ps)" by auto
        with Cons.prems(2) iy have p: "is_array_index (fst p)" "digits_val (fst p) < digits_val y"
          by (auto simp: key_before_def)
        with False have "digits_val k \<le> digits_val (fst p)" by auto
        with p show ?thesis by simp
      qed
    qed
    with False Cons.prems show ?thesis by auto
  qed
qed

lemma wf_obj_property_set:
  assumes "wf_obj ps" "wf_json v"
  shows "wf_obj (property_set k v ps)"
proof (cases "k \<in> set (map fst ps)")
  case True
  have "list_all (\<lambda>p. wf_json (snd p)) (replace_value k v ps)"
    using assms set_replace_value[of k v ps] by (auto simp: wf_obj_def list_all_iff)
  with True assms show ?thesis
    by (simp add: property_set_def wf_obj_def keys_replace_value)
next
  case False
  show ?thesis
  proof (cases "is_array_index k")
    case True
    with False assms show ?thesis
      using ordered_insert_index[OF True False, of v] distinct_insert_index[OF False, of v]
      by (auto simp: property_set_def wf_obj_def prop_ordered_def set_insert_index list_all_iff)
  next
    case nidx: False
    with False assms show ?thesis
      by (auto simp: property_set_def wf_obj_def prop_ordered_def sorted_wrt_append key_before_def)
  qed
qed

lemma wf_deliver: "wf_json v \<Longrightarrow> list_all wf_frame st \<Longrightarrow> wf_state (deliver v st)"
  by (induction v st rule: deliver.induct) (auto simp: wf_obj_property_set)

lemma wf_start_value:
  "start_value t st = Some s \<Longrightarrow> list_all wf_frame st \<Longrightarrow> wf_state s"
  by (cases t) (auto intro!: wf_deliver)

lemma wf_obj_Nil: "wf_obj []"
  by (simp add: wf_obj_def prop_ordered_def)

lemma wf_step: "step s t = Some s' \<Longrightarrow> wf_state s \<Longrightarrow> wf_state s'"
proof (cases s)
  case (PArrFirst st)
  assume "step s t = Some s'" "wf_state s"
  with PArrFirst show ?thesis
    by (auto split: if_splits intro!: wf_deliver dest!: wf_start_value)
qed (auto split: if_splits token.splits intro!: wf_deliver simp: wf_json_obj wf_obj_Nil
     dest!: wf_start_value simp del: wf_json.simps(2))

lemma wf_run: "run (Some s) ts = Some s' \<Longrightarrow> wf_state s \<Longrightarrow> wf_state s'"
proof (induction ts arbitrary: s)
  case Nil
  then show ?case by simp
next
  case (Cons t ts)
  then show ?case by (cases "step s t") (auto dest: wf_step)
qed

lemma wf_parse_tokens: "parse_tokens ts = Some v \<Longrightarrow> wf_json v"
  unfolding parse_tokens_def
  by (auto split: option.splits pstate.splits dest!: wf_run)

lemma wf_JSON_parse: "JSON_parse tn s = Some v \<Longrightarrow> wf_json v"
  unfolding JSON_parse_def by (auto split: option.splits dest: wf_parse_tokens)

subsection \<open>Strictness\<close>

















section \<open>Properties of the timer\<close>

lemma timer_validate: "timer (snd (validate P st)) = timer st"
  by (auto simp: validate_def scrollToError_def Let_def
      split: sum.splits option.splits prod.splits if_splits)

lemma timer_updateKpis: "timer (updateKpis J st) = timer st"
  by (simp add: updateKpis_def Let_def)

lemma timer_setValue: "timer (setValue J now s st) = Some (now + 400)"
  by (simp add: setValue_def on_change_def)

lemma timer_ops:
  "timer (formatJson P J nt i now st) = timer st \<or> timer (formatJson P J nt i now st) = Some (now + 400)"
  "timer (minifyJson P J nt now st) = timer st \<or> timer (minifyJson P J nt now st) = Some (now + 400)"
  "timer (sortKeys P J nt lc now st) = timer st \<or> timer (sortKeys P J nt lc now st) = Some (now + 400)"
  by (auto simp: formatJson_def minifyJson_def sortKeys_def timer_validate timer_updateKpis
      timer_setValue split: sum.splits)

lemma handle_keeps_pending:
  assumes "handle h e (n0, s0) = Some (n1, s1)" "e \<noteq> Fire"
    "timer s0 = Some due" "T + 400 \<le> due" "T \<le> n0"
  shows "T \<le> n1 \<and> (\<exists>due'. timer s1 = Some due' \<and> T + 400 \<le> due')"
proof (cases e)
  case (Edit s)
  with assms show ?thesis by (auto simp: timer_setValue)
next
  case (Pass d)
  with assms show ?thesis by auto
next
  case Fire
  with assms show ?thesis by simp
next
  case (Press b)
  show ?thesis
  proof (cases b)
    case Validate
    with Press assms show ?thesis by (auto simp: timer_validate)
  next
    case Format
    with Press assms
      timer_ops(1)[of "jsonlint_parse h" "json_parse h" "number_text h" "indent h" n0 s0]
    show ?thesis by auto
  next
    case Minify
    with Press assms
      timer_ops(2)[of "jsonlint_parse h" "json_parse h" "number_text h" n0 s0]
    show ?thesis by auto
  next
    case SortKeys
    with Press assms
      timer_ops(3)[of "jsonlint_parse h" "json_parse h" "number_text h" "localeCompare h" n0 s0]
    show ?thesis by auto
  qed
next
  case (Scroll b)
  with assms show ?thesis by auto
qed

lemma exec_keeps_pending:
  "exec h es (n0, s0) = Some (n1, s1) \<Longrightarrow> Fire \<notin> set es \<Longrightarrow>
   timer s0 = Some due \<Longrightarrow> T + 400 \<le> due \<Longrightarrow> T \<le> n0 \<Longrightarrow>
   T \<le> n1 \<and> (\<exists>due'. timer s1 = Some due' \<and> T + 400 \<le> due')"
proof (induction es arbitrary: n0 s0 due)
  case Nil
  then show ?case by simp
next
  case (Cons e es)
  from Cons.prems(1) obtain n s where h: "handle h e (n0, s0) = Some (n, s)"
    and ex: "exec h es (n, s) = Some (n1, s1)"
    by (auto split: option.splits)
  from Cons.prems(2) have ne: "e \<noteq> Fire" "Fire \<notin> set es" by auto
  from handle_keeps_pending[OF h ne(1) Cons.prems(3,4,5)]
  obtain due' where "T \<le> n" "timer s = Some due'" "T + 400 \<le> due'" by blast
  from Cons.IH[OF ex ne(2) this(2,3,1)] show ?case .
qed

lemma debounce:
  assumes "exec h (Edit s # mid) (now, st) = Some (n1, s1)" "Fire \<notin> set mid"
    "handle h Fire (n1, s1) = Some c"
  shows "now + 400 \<le> n1 \<and> c = (n1, on_timeout (jsonlint_parse h) (autoValidate h) s1)"
proof -
  from assms(1) have ex: "exec h mid (now, setValue (json_parse h) now s st) = Some (n1, s1)"
    by simp
  from exec_keeps_pending[OF ex assms(2) timer_setValue, of now]
  obtain due' where "timer s1 = Some due'" "now + 400 \<le> due'" by auto
  with assms(3) show ?thesis by (auto split: if_splits)
qed

section \<open>Reading back what \<open>JSON.stringify\<close> writes\<close>

subsection \<open>The parser on the tokens of a value\<close>

lemma join_Cons: "join sep (x # xs) = x @ concat (map (\<lambda>y. sep @ y) xs)"
  by (induction xs arbitrary: x) auto

lemma tokens_of_hd: "\<exists>t ts. tokens_of v = t # ts \<and> t \<noteq> TRBrack"
  by (cases v) auto

lemma insert_index_last:
  assumes "is_array_index k" "\<forall>a\<in>set (map fst ps). key_before a k"
  shows "insert_index k v ps = ps @ [(k, v)]"
  using assms by (induction ps) (auto simp: key_before_def)

lemma property_set_append:
  assumes "k \<notin> set (map fst ps)" "\<forall>a\<in>set (map fst ps). key_before a k"
  shows "property_set k v ps = ps @ [(k, v)]"
  using assms by (auto simp: property_set_def insert_index_last simp del: set_map)

lemma fold_property_set:
  assumes "distinct (map fst (pre @ post))" "sorted_wrt key_before (map fst (pre @ post))"
  shows "fold (\<lambda>p. property_set (fst p) (snd p)) post pre = pre @ post"
  using assms
proof (induction post arbitrary: pre)
  case Nil
  then show ?case by simp
next
  case (Cons p post)
  have "property_set (fst p) (snd p) pre = pre @ [p]"
    using Cons.prems by (subst property_set_append) (auto simp: sorted_wrt_append)
  moreover have "fold (\<lambda>p. property_set (fst p) (snd p)) post (pre @ [p]) = (pre @ [p]) @ post"
    using Cons.prems by (intro Cons.IH) auto
  ultimately show ?case by simp
qed

lemma run_elements:
  assumes "\<And>x st rest. x \<in> set xs \<Longrightarrow>
      run (Some (PValue st)) (tokens_of x @ rest) = run (Some (deliver x st)) rest"
  shows "run (Some (PArrNext acc st)) (concat (map (\<lambda>y. [TComma] @ tokens_of y) xs) @ TRBrack # rest)
         = run (Some (deliver (JArr (acc @ xs)) st)) rest"
  using assms
proof (induction xs arbitrary: acc)
  case Nil
  then show ?case by simp
next
  case (Cons x xs)
  have "run (Some (PArrNext acc st))
          (concat (map (\<lambda>y. [TComma] @ tokens_of y) (x # xs)) @ TRBrack # rest)
        = run (Some (PValue (InArr acc # st)))
          (tokens_of x @ concat (map (\<lambda>y. [TComma] @ tokens_of y) xs) @ TRBrack # rest)"
    by simp
  also have "\<dots> = run (Some (deliver x (InArr acc # st)))
          (concat (map (\<lambda>y. [TComma] @ tokens_of y) xs) @ TRBrack # rest)"
    by (rule Cons.prems) simp
  also have "\<dots> = run (Some (deliver (JArr ((acc @ [x]) @ xs)) st)) rest"
    unfolding deliver.simps by (rule Cons.IH) (simp add: Cons.prems)
  finally show ?case by simp
qed

lemma run_members:
  assumes "\<And>p st rest. p \<in> set ps \<Longrightarrow>
      run (Some (PValue st)) (tokens_of (snd p) @ rest) = run (Some (deliver (snd p) st)) rest"
  shows "run (Some (PObjNext acc st))
           (concat (map (\<lambda>p. [TComma] @ TString (fst p) # TColon # tokens_of (snd p)) ps)
            @ TRBrace # rest)
         = run (Some (deliver (JObj (fold (\<lambda>p. property_set (fst p) (snd p)) ps acc)) st)) rest"
  using assms
proof (induction ps arbitrary: acc)
  case Nil
  then show ?case by simp
next
  case (Cons p ps)
  let ?tl = "concat (map (\<lambda>p. [TComma] @ TString (fst p) # TColon # tokens_of (snd p)) ps)
            @ TRBrace # rest"
  have "run (Some (PObjNext acc st))
          (concat (map (\<lambda>p. [TComma] @ TString (fst p) # TColon # tokens_of (snd p)) (p # ps))
            @ TRBrace # rest)
        = run (Some (PValue (InObj acc (fst p) # st))) (tokens_of (snd p) @ ?tl)"
    by simp
  also have "\<dots> = run (Some (deliver (snd p) (InObj acc (fst p) # st))) ?tl"
    by (rule Cons.prems) simp
  also have "\<dots> = run (Some (deliver (JObj (fold (\<lambda>p. property_set (fst p) (snd p)) ps
                        (property_set (fst p) (snd p) acc))) st)) rest"
    unfolding deliver.simps by (rule Cons.IH) (simp add: Cons.prems)
  finally show ?case by simp
qed

lemma run_tokens_of:
  "wf_json v \<Longrightarrow> run (Some (PValue st)) (tokens_of v @ rest) = run (Some (deliver v st)) rest"
proof (induction v arbitrary: st rest)
  case (JArr xs)
  show ?case
  proof (cases xs)
    case Nil
    then show ?thesis by simp
  next
    case (Cons x xs')
    have ih: "run (Some (PValue st)) (tokens_of y @ rest) = run (Some (deliver y st)) rest"
      if "y \<in> set xs" for y st rest
      using JArr.IH[OF that] JArr.prems that by (auto simp: list_all_iff)
    obtain t ts where t: "tokens_of x = t # ts" "t \<noteq> TRBrack"
      using tokens_of_hd[of x] by blast
    let ?tl = "concat (map (\<lambda>y. [TComma] @ tokens_of y) xs') @ TRBrack # rest"
    have "run (Some (PValue st)) (tokens_of (JArr xs) @ rest)
          = run (Some (PArrFirst st)) (tokens_of x @ ?tl)"
      by (simp add: Cons join_Cons comp_def)
    also have "\<dots> = run (Some (PValue (InArr [] # st))) (tokens_of x @ ?tl)"
      unfolding t using t(2) by simp
    also have "\<dots> = run (Some (deliver x (InArr [] # st))) ?tl"
      by (rule ih) (simp add: Cons)
    also have "\<dots> = run (Some (deliver (JArr ([x] @ xs')) st)) rest"
      unfolding deliver.simps append_Nil by (rule run_elements) (simp add: ih Cons)
    finally show ?thesis by (simp add: Cons)
  qed
next
  case (JObj ps)
  show ?case
  proof (cases ps)
    case Nil
    then show ?thesis by simp
  next
    case (Cons p ps')
    have ih: "run (Some (PValue st)) (tokens_of (snd q) @ rest) = run (Some (deliver (snd q) st)) rest"
      if "q \<in> set ps" for q st rest
    proof -
      from that JObj.prems have "wf_json (snd q)" by (auto simp: list_all_iff)
      moreover have "snd q \<in> Basic_BNFs.snds q" by (cases q) auto
      ultimately show ?thesis using JObj.IH[OF that] by blast
    qed
    let ?tl = "concat (map (\<lambda>p. [TComma] @ TString (fst p) # TColon # tokens_of (snd p)) ps')
            @ TRBrace # rest"
    have "run (Some (PValue st)) (tokens_of (JObj ps) @ rest)
          = run (Some (PValue (InObj [] (fst p) # st))) (tokens_of (snd p) @ ?tl)"
      by (simp add: Cons join_Cons comp_def)
    also have "\<dots> = run (Some (deliver (snd p) (InObj [] (fst p) # st))) ?tl"
      by (rule ih) (simp add: Cons)
    also have "\<dots> = run (Some (deliver (JObj (fold (\<lambda>p. property_set (fst p) (snd p)) ps'
                     (property_set (fst p) (snd p) []))) st)) rest"
      unfolding deliver.simps by (rule run_members) (simp add: ih Cons)
    also have "fold (\<lambda>p. property_set (fst p) (snd p)) ps' (property_set (fst p) (snd p) [])
               = fold (\<lambda>p. property_set (fst p) (snd p)) ps []"
      by (simp add: Cons)
    also have "\<dots> = ps"
      using fold_property_set[of "[]" ps] JObj.prems by (simp add: prop_ordered_def)
    finally show ?thesis .
  qed
qed simp_all

lemma parse_tokens_of: "wf_json v \<Longrightarrow> parse_tokens (tokens_of v) = Some v"
  using run_tokens_of[of v "[]" "[]"] by (simp add: parse_tokens_def)

subsection \<open>Strings\<close>

lemma hex_val_digit: "d < 16 \<Longrightarrow> hex_val (hex_digit d) = Some d"
  by (auto simp: hex_val_def hex_digit_def)

lemma hex4_split:
  assumes "c < 65536"
  shows "4096 * (c div 4096 mod 16) + 256 * (c div 256 mod 16) + 16 * (c div 16 mod 16) + c mod 16 = (c::nat)"
proof -
  define X Y Z W U V where "X = c div 4096 mod 16" and "Y = c div 256 mod 16"
    and "Z = c div 16 mod 16" and "W = c mod 16" and "U = c div 256" and "V = c div 16"
  have a: "c div 4096 = X" using assms by (simp add: X_def)
  have "c div 256 = 16 * (c div 4096) + c div 256 mod 16"
    using div_mult2_eq[of c 256 16] by simp
  then have b: "U = 16 * X + Y" by (simp only: a U_def Y_def)
  have "c div 16 = 16 * (c div 256) + c div 16 mod 16"
    using div_mult2_eq[of c 16 16] by simp
  then have d: "V = 16 * U + Z" by (simp only: U_def V_def Z_def)
  have e: "c = 16 * V + W" by (simp add: V_def W_def)
  have "4096 * X + 256 * Y + 16 * Z + W = c" using b d e by linarith
  then show ?thesis by (simp only: X_def Y_def Z_def W_def)
qed

lemma hex4_escape:
  assumes "c < 65536"
  shows "hex4_val (hex_digit (c div 4096 mod 16)) (hex_digit (c div 256 mod 16))
            (hex_digit (c div 16 mod 16)) (hex_digit (c mod 16)) = Some c"
proof -
  have 1: "hex_val (hex_digit (c div 4096 mod 16)) = Some (c div 4096 mod 16)"
    by (rule hex_val_digit) simp
  have 2: "hex_val (hex_digit (c div 256 mod 16)) = Some (c div 256 mod 16)"
    by (rule hex_val_digit) simp
  have 3: "hex_val (hex_digit (c div 16 mod 16)) = Some (c div 16 mod 16)"
    by (rule hex_val_digit) simp
  have 4: "hex_val (hex_digit (c mod 16)) = Some (c mod 16)"
    by (rule hex_val_digit) simp
  show ?thesis
    unfolding hex4_val_def 1 2 3 4 by (simp only: prod.case option.case hex4_split[OF assms])
qed

lemma lex_string_unicode:
  "lex_string (92 # 117 # h1 # h2 # h3 # h4 # r) =
     (case hex4_val h1 h2 h3 h4 of
        None \<Rightarrow> None
      | Some u \<Rightarrow> map_option (\<lambda>(s, t). (u # s, t)) (lex_string r))"
  by simp

lemma lex_string_escape:
  "c < 65536 \<Longrightarrow>
   lex_string (unicode_escape c @ r) = map_option (\<lambda>(s, t). (c # s, t)) (lex_string r)"
  by (simp only: unicode_escape_def append_Cons append_Nil lex_string_unicode hex4_escape
      option.case)

lemma lex_string_plain:
  "32 \<le> c \<Longrightarrow> c \<noteq> 34 \<Longrightarrow> c \<noteq> 92 \<Longrightarrow>
   lex_string (c # r) = map_option (\<lambda>(s, t). (c # s, t)) (lex_string r)"
  by simp

lemma quote_units_short:
  "quote_units (8 # cs) = [92, 98] @ quote_units cs"
  "quote_units (9 # cs) = [92, 116] @ quote_units cs"
  "quote_units (10 # cs) = [92, 110] @ quote_units cs"
  "quote_units (12 # cs) = [92, 102] @ quote_units cs"
  "quote_units (13 # cs) = [92, 114] @ quote_units cs"
  "quote_units (34 # cs) = [92, 34] @ quote_units cs"
  "quote_units (92 # cs) = [92, 92] @ quote_units cs"
  by simp_all

lemma lex_string_short_escapes:
  "lex_string ([92, 98] @ r) = map_option (\<lambda>(s, t). (8 # s, t)) (lex_string r)"
  "lex_string ([92, 116] @ r) = map_option (\<lambda>(s, t). (9 # s, t)) (lex_string r)"
  "lex_string ([92, 110] @ r) = map_option (\<lambda>(s, t). (10 # s, t)) (lex_string r)"
  "lex_string ([92, 102] @ r) = map_option (\<lambda>(s, t). (12 # s, t)) (lex_string r)"
  "lex_string ([92, 114] @ r) = map_option (\<lambda>(s, t). (13 # s, t)) (lex_string r)"
  "lex_string ([92, 34] @ r) = map_option (\<lambda>(s, t). (34 # s, t)) (lex_string r)"
  "lex_string ([92, 92] @ r) = map_option (\<lambda>(s, t). (92 # s, t)) (lex_string r)"
  by (simp_all add: unescape_def)

lemma quote_units_other:
  assumes "c \<notin> {8, 9, 10, 12, 13, 34, 92}"
  shows "quote_units (c # cs) =
     (if c < 32 then unicode_escape c @ quote_units cs
      else if high_surrogate c then
        (case cs of
           d # ds \<Rightarrow>
             if low_surrogate d then c # d # quote_units ds
             else unicode_escape c @ quote_units cs
         | [] \<Rightarrow> unicode_escape c)
      else if low_surrogate c then unicode_escape c @ quote_units cs
      else c # quote_units cs)"
  using assms by simp

lemma lex_string_end: "lex_string (34 # rest) = Some ([], rest)"
  by simp

lemma lex_string_quote: "lex_string (quote_units s @ 34 # rest) = Some (s, rest)"
proof (induction "length s" arbitrary: s rule: less_induct)
  case less
  show ?case
  proof (cases s)
    case Nil
    then show ?thesis by simp
  next
    case (Cons c cs)
    have ih: "lex_string (quote_units cs @ 34 # rest) = Some (cs, rest)"
      by (rule less) (simp add: Cons)
    show ?thesis
    proof (cases "c \<in> {8, 9, 10, 12, 13, 34, 92}")
      case True
      then consider "c = 8" | "c = 9" | "c = 10" | "c = 12" | "c = 13" | "c = 34" | "c = 92"
        by blast
      then show ?thesis
        unfolding Cons
        by cases
          (simp_all only: quote_units_short append_assoc lex_string_short_escapes ih
            option.map prod.case)
    next
      case other: False
      note q = quote_units_other[OF other]
      have ne: "c \<noteq> 34" "c \<noteq> 92" using other by auto
      show ?thesis
      proof (cases "c < 32")
        case True
        then have "c < 65536" by simp
        with True show ?thesis
          unfolding Cons q by (simp only: if_True append_assoc lex_string_escape ih option.map prod.case)
      next
        case ge: False
        show ?thesis
        proof (cases "high_surrogate c")
          case high: True
          then have c: "c < 65536" by (simp add: high_surrogate_def)
          show ?thesis
          proof (cases cs)
            case Nil
            have "quote_units (c # cs) = unicode_escape c"
              by (simp only: q Nil ge high if_True if_False list.case)
            then show ?thesis
              unfolding \<open>s = c # cs\<close> Nil using c
              by (simp add: lex_string_escape[of c "34 # rest"] lex_string_end
                  del: lex_string.simps)
          next
            case (Cons d ds)
            show ?thesis
            proof (cases "low_surrogate d")
              case True
              then have d: "32 \<le> d" "d \<noteq> 34" "d \<noteq> 92" by (auto simp: low_surrogate_def)
              have ihd: "lex_string (quote_units ds @ 34 # rest) = Some (ds, rest)"
                by (rule less) (simp add: Cons \<open>s = c # cs\<close>)
              have "quote_units (c # cs) = c # d # quote_units ds"
                by (simp only: q Cons ge high True if_True if_False list.case)
              then show ?thesis
                unfolding \<open>s = c # cs\<close> using ge ne d ihd Cons
                by (simp add: lex_string_plain del: lex_string.simps)
            next
              case False
              have "quote_units (c # cs) = unicode_escape c @ quote_units cs"
                by (simp only: q Cons ge high False if_True if_False list.case)
              then show ?thesis
                unfolding \<open>s = c # cs\<close> using c ih
                by (simp add: lex_string_escape del: lex_string.simps)
            qed
          qed
        next
          case nh: False
          show ?thesis
          proof (cases "low_surrogate c")
            case True
            then have c: "c < 65536" by (simp add: low_surrogate_def)
            have "quote_units (c # cs) = unicode_escape c @ quote_units cs"
              by (simp only: q ge nh True if_True if_False)
            then show ?thesis
              unfolding Cons using c ih by (simp add: lex_string_escape del: lex_string.simps)
          next
            case False
            have "quote_units (c # cs) = c # quote_units cs"
              by (simp only: q ge nh False if_True if_False)
            then show ?thesis
              unfolding Cons using ge ne ih by (simp add: lex_string_plain del: lex_string.simps)
          qed
        qed
      qed
    qed
  qed
qed

subsection \<open>Numbers\<close>

lemma span_append:
  assumes "rest = [] \<or> \<not> P (hd rest)"
  shows "takeWhile P (r @ rest) = takeWhile P r \<and> dropWhile P (r @ rest) = dropWhile P r @ rest"
  using assms by (induction r) (cases rest; auto)+

lemma number_end_digit: "number_end rest \<Longrightarrow> rest = [] \<or> \<not> is_digit (hd rest)"
  by (cases rest) (auto simp: number_end_def)

lemma digits_span_append:
  assumes "number_end rest"
  shows "takeWhile is_digit (r @ rest) = takeWhile is_digit r"
    and "dropWhile is_digit (r @ rest) = dropWhile is_digit r @ rest"
  using span_append[where P = is_digit and rest = rest and r = r] number_end_digit[OF assms]
  by blast+

lemma lex_int_append:
  assumes "lex_int s = Some (i, r)" "number_end rest"
  shows "lex_int (s @ rest) = Some (i, r @ rest)"
proof -
  from assms(1) obtain c r0 where s: "s = c # r0"
    by (cases s) (auto simp: lex_int_def)
  note sp = digits_span_append[OF assms(2), of r0]
  from assms(1) show ?thesis
    unfolding s by (auto simp: lex_int_def sp split: if_splits)
qed

lemma lex_frac_append:
  assumes "lex_frac s = Some (f, r)" "number_end rest"
  shows "lex_frac (s @ rest) = Some (f, r @ rest)"
proof (cases s)
  case Nil
  with assms show ?thesis by (cases rest) (auto simp: lex_frac_def number_end_def)
next
  case (Cons c r0)
  note sp = digits_span_append[OF assms(2), of r0]
  from assms(1) show ?thesis
    unfolding Cons by (auto simp: lex_frac_def sp split: if_splits)
qed

lemma lex_exp_append:
  assumes "lex_exp s = Some (e, r)" "number_end rest"
  shows "lex_exp (s @ rest) = Some (e, r @ rest)"
proof (cases s)
  case Nil
  with assms show ?thesis by (cases rest) (auto simp: lex_exp_def number_end_def)
next
  case (Cons c r0)
  show ?thesis
  proof (cases "c = 101 \<or> c = 69")
    case False
    with assms(1) show ?thesis unfolding Cons by (auto simp: lex_exp_def)
  next
    case True
    define sign :: jstring
      where "sign = (case r0 of x # _ \<Rightarrow> if x = 43 \<or> x = 45 then [x] else [] | [] \<Rightarrow> [])"
    from assms(1) True have ne: "takeWhile is_digit (drop (length sign) r0) \<noteq> []"
      and e: "e = c # sign @ takeWhile is_digit (drop (length sign) r0)"
      and r: "r = dropWhile is_digit (drop (length sign) r0)"
      unfolding Cons by (auto simp: lex_exp_def Let_def sign_def[symmetric] split: if_splits)
    from ne have r0: "r0 \<noteq> []" by auto
    then have sign': "(case r0 @ rest of x # _ \<Rightarrow> if x = 43 \<or> x = 45 then [x] else [] | [] \<Rightarrow> []) = sign"
      by (cases r0) (auto simp: sign_def)
    have len: "length sign \<le> length r0"
      using r0 by (cases r0) (auto simp: sign_def)
    note sp = digits_span_append[OF assms(2), of "drop (length sign) r0"]
    show ?thesis
      unfolding Cons using True ne e r len
      by (simp add: lex_exp_def Let_def sign' sp)
  qed
qed

lemma lex_number_append:
  assumes "lex_number s = Some (lit, r)" "number_end rest"
  shows "lex_number (s @ rest) = Some (lit, r @ rest)"
proof -
  define sign :: jstring
    where "sign = (case s of c # _ \<Rightarrow> if c = 45 then [45] else [] | [] \<Rightarrow> [])"
  from assms(1) obtain i r1 f r2 e where
    i: "lex_int (drop (length sign) s) = Some (i, r1)" and
    f: "lex_frac r1 = Some (f, r2)" and
    e: "lex_exp r2 = Some (e, r)" and
    lit: "lit = sign @ i @ f @ e"
    by (auto simp: lex_number_def sign_def[symmetric] split: option.splits)
  from i have s: "s \<noteq> []" by (cases s) (auto simp: lex_int_def sign_def)
  then have sign': "(case s @ rest of c # _ \<Rightarrow> if c = 45 then [45] else [] | [] \<Rightarrow> []) = sign"
    by (cases s) (auto simp: sign_def)
  have len: "length sign \<le> length s"
    using s by (cases s) (auto simp: sign_def)
  have "lex_int (drop (length sign) (s @ rest)) = Some (i, r1 @ rest)"
    using lex_int_append[OF i assms(2)] len by simp
  moreover note lex_frac_append[OF f assms(2)] lex_exp_append[OF e assms(2)]
  ultimately show ?thesis
    by (simp add: lex_number_def sign' lit)
qed

lemma lex_number_first:
  "lex_number s = Some (lit, r) \<Longrightarrow> \<exists>c t. s = c # t \<and> (c = 45 \<or> is_digit c) \<and> \<not> json_ws c"
  by (cases s) (auto simp: lex_number_def lex_int_def json_ws_def is_digit_def
      split: option.splits if_splits list.splits)

subsection \<open>The lexer on the text of a value\<close>

lemma next_token_ws: "list_all json_ws w \<Longrightarrow> next_token tn (w @ s) = next_token tn s"
  by (simp add: next_token_def dropWhile_append2 list_all_iff)

lemma lex_ws: "list_all json_ws w \<Longrightarrow> lex tn (w @ s) = lex tn s"
  by (simp add: lex.simps[of tn "w @ s"] lex.simps[of tn s] next_token_ws)

lemma lex_punct:
  "lex tn (123 # s) = map_option ((#) TLBrace) (lex tn s)"
  "lex tn (125 # s) = map_option ((#) TRBrace) (lex tn s)"
  "lex tn (91 # s) = map_option ((#) TLBrack) (lex tn s)"
  "lex tn (93 # s) = map_option ((#) TRBrack) (lex tn s)"
  "lex tn (58 # s) = map_option ((#) TColon) (lex tn s)"
  "lex tn (44 # s) = map_option ((#) TComma) (lex tn s)"
  by (simp_all add: lex.simps[of tn "_ # s"] next_token_def json_ws_def)

lemma lex_literal:
  "lex tn (ustr ''null'' @ s) = map_option ((#) TNull) (lex tn s)"
  "lex tn (ustr ''true'' @ s) = map_option ((#) TTrue) (lex tn s)"
  "lex tn (ustr ''false'' @ s) = map_option ((#) TFalse) (lex tn s)"
  by (simp_all add: lex.simps[of tn "_ # _"] next_token_def json_ws_def ustr_def is_digit_def)

lemma lex_Nil: "lex tn [] = Some []"
  by (simp add: lex.simps next_token_def)

lemma lex_quote: "lex tn (quote k @ s) = map_option ((#) (TString k)) (lex tn s)"
  by (simp add: quote_def lex.simps[of tn "34 # _"] next_token_def json_ws_def lex_string_quote)

lemma lex_num:
  assumes "lex_number lit = Some (lit, [])" "number_end s"
  shows "lex tn (lit @ s) = map_option ((#) (TNumber (tn lit))) (lex tn s)"
proof -
  from lex_number_first[OF assms(1)] obtain c t where
    lit: "lit = c # t" and c: "c = 45 \<or> is_digit c" "\<not> json_ws c" by blast
  have n: "lex_number (c # t @ s) = Some (lit, s)"
    using lex_number_append[OF assms] by (simp add: lit)
  have 1: "c \<noteq> 123" "c \<noteq> 125" "c \<noteq> 91" "c \<noteq> 93" "c \<noteq> 58" "c \<noteq> 44" "c \<noteq> 34"
    using c(1) by (auto simp: is_digit_def)
  have "next_token tn (lit @ s) = LTok (TNumber (tn lit)) s"
    unfolding lit using c 1 n by (simp add: next_token_def lit)
  then show ?thesis by (simp add: lex.simps[of tn "lit @ s"])
qed

lemma number_end_simps:
  "number_end []" "number_end (44 # s)" "number_end (93 # s)" "number_end (125 # s)"
  "number_end (10 # s)"
  by (simp_all add: number_end_def is_digit_def)

lemma append_fun:
  "(@) (a @ b) = (\<lambda>ts. a @ b @ ts)"
  "(@) (x # a) = (\<lambda>ts. x # a @ ts)"
  "(@) [] = (\<lambda>ts. ts)"
  by (simp_all add: fun_eq_iff)

lemma lex_join:
  assumes elem: "\<And>x rest. x \<in> set xs \<Longrightarrow> number_end rest \<Longrightarrow>
        lex tn (f x @ rest) = map_option ((@) (g x)) (lex tn rest)"
    and sep: "\<And>s. lex tn (sep @ s) = map_option ((#) TComma) (lex tn s)"
    and sep_end: "\<And>s. number_end (sep @ s)"
    and ne: "xs \<noteq> []" and tail: "number_end tail"
  shows "lex tn (join sep (map f xs) @ tail)
         = map_option ((@) (join [TComma] (map g xs))) (lex tn tail)"
  using ne elem
proof (induction xs rule: list_nonempty_induct)
  case (single x)
  then show ?case using tail by simp
next
  case (cons x xs)
  obtain y ys where xs: "xs = y # ys" using cons.hyps by (cases xs) auto
  have ih: "lex tn (join sep (map f xs) @ tail)
         = map_option ((@) (join [TComma] (map g xs))) (lex tn tail)"
    by (rule cons.IH) (simp add: cons.prems)
  have "lex tn (join sep (map f (x # xs)) @ tail)
        = lex tn (f x @ (sep @ join sep (map f xs) @ tail))"
    by (simp add: xs)
  also have "\<dots> = map_option ((@) (g x)) (lex tn (sep @ join sep (map f xs) @ tail))"
    by (rule cons.prems) (simp_all add: sep_end)
  also have "\<dots> = map_option ((@) (g x @ [TComma] @ join [TComma] (map g xs))) (lex tn tail)"
    by (simp add: sep ih option.map_comp comp_def append_fun)
  finally show ?case by (simp add: xs append_fun)
qed

lemma lex_serialize:
  assumes gap: "list_all json_ws gap"
  shows "nums_ok tn nt v \<Longrightarrow> list_all json_ws ind \<Longrightarrow> number_end rest \<Longrightarrow>
         lex tn (serialize nt gap ind v @ rest) = map_option ((@) (tokens_of v)) (lex tn rest)"
proof (induction v arbitrary: ind rest)
  case JNull
  then show ?case by (simp add: lex_literal)
next
  case (JBool b)
  then show ?case by (simp add: lex_literal)
next
  case (JNum n)
  then show ?case by (simp add: lex_num)
next
  case (JStr s)
  then show ?case by (simp add: lex_quote)
next
  case (JArr xs)
  show ?case
  proof (cases "xs = []")
    case True
    then show ?thesis by (simp add: ustr_def lex_punct option.map_comp comp_def)
  next
    case False
    let ?ind = "ind @ gap"
    have ws: "list_all json_ws ?ind" using gap JArr.prems(2) by simp
    have elem: "lex tn (serialize nt gap ?ind x @ r) = map_option ((@) (tokens_of x)) (lex tn r)"
      if "x \<in> set xs" "number_end r" for x r
      using JArr.IH[OF that(1) _ ws that(2)] JArr.prems(1) that(1) by (auto simp: list_all_iff)
    show ?thesis
    proof (cases "gap = []")
      case True
      have "lex tn (join [44] (map (serialize nt gap ?ind) xs) @ 93 # rest)
            = map_option ((@) (join [TComma] (map tokens_of xs))) (lex tn (93 # rest))"
        by (rule lex_join) (simp_all add: elem lex_punct number_end_simps False)
      then show ?thesis
        using False True
        by (simp add: lex_punct option.map_comp comp_def append_fun)
    next
      case gap_ne: False
      let ?sep = "[44, 10] @ ?ind"
      have sep: "lex tn (44 # 10 # ind @ gap @ s) = map_option ((#) TComma) (lex tn s)" for s
        using lex_ws[of "10 # ?ind" tn s] ws by (simp add: lex_punct json_ws_def)
      have tl: "lex tn (10 # ind @ 93 # rest) = map_option ((#) TRBrack) (lex tn rest)"
        using lex_ws[of "10 # ind" tn "93 # rest"] JArr.prems(2)
        by (simp add: lex_punct json_ws_def)
      have "lex tn (join ?sep (map (serialize nt gap ?ind) xs) @ 10 # ind @ 93 # rest)
            = map_option ((@) (join [TComma] (map tokens_of xs))) (lex tn (10 # ind @ 93 # rest))"
        by (rule lex_join) (simp_all add: elem sep number_end_simps False)
      moreover have "lex tn (10 # ?ind @ s) = lex tn s" for s
        using lex_ws[of "10 # ?ind" tn s] ws by (simp add: json_ws_def)
      ultimately show ?thesis
        using False gap_ne
        by (simp add: lex_punct tl option.map_comp comp_def append_fun)
    qed
  qed
next
  case (JObj ps)
  show ?case
  proof (cases "ps = []")
    case True
    then show ?thesis by (simp add: ustr_def lex_punct option.map_comp comp_def)
  next
    case False
    let ?ind = "ind @ gap"
    have ws: "list_all json_ws ?ind" using gap JObj.prems(2) by simp
    have ih: "lex tn (serialize nt gap ?ind (snd p) @ r) = map_option ((@) (tokens_of (snd p))) (lex tn r)"
      if "p \<in> set ps" "number_end r" for p r
    proof -
      have "snd p \<in> Basic_BNFs.snds p" by (cases p) auto
      moreover have "nums_ok tn nt (snd p)" using JObj.prems(1) that(1) by (auto simp: list_all_iff)
      ultimately show ?thesis using JObj.IH[OF that(1) _ _ ws that(2)] by blast
    qed
    let ?g = "\<lambda>p. TString (fst p) # TColon # tokens_of (snd p)"
    show ?thesis
    proof (cases "gap = []")
      case True
      let ?f = "\<lambda>p. quote (fst p) @ [58] @ serialize nt gap ?ind (snd p)"
      have elem: "lex tn (quote (fst p) @ 58 # serialize nt gap (ind @ gap) (snd p) @ r)
            = map_option ((@) (?g p)) (lex tn r)"
        if "p \<in> set ps" "number_end r" for p r
        using ih[OF that] by (simp add: lex_quote lex_punct option.map_comp comp_def append_fun)
      have "lex tn (join [44] (map ?f ps) @ 125 # rest)
            = map_option ((@) (join [TComma] (map ?g ps))) (lex tn (125 # rest))"
        by (rule lex_join) (simp_all add: elem lex_punct number_end_simps False)
      then show ?thesis
        using False True
        by (simp add: lex_punct option.map_comp comp_def append_fun)
    next
      case gap_ne: False
      let ?f = "\<lambda>p. quote (fst p) @ [58, 32] @ serialize nt gap ?ind (snd p)"
      let ?sep = "[44, 10] @ ?ind"
      have sp: "lex tn (32 # s) = lex tn s" for s
        using lex_ws[of "[32]" tn s] by (simp add: json_ws_def)
      have elem: "lex tn (quote (fst p) @ 58 # 32 # serialize nt gap (ind @ gap) (snd p) @ r)
            = map_option ((@) (?g p)) (lex tn r)"
        if "p \<in> set ps" "number_end r" for p r
        using ih[OF that] by (simp add: lex_quote lex_punct sp option.map_comp comp_def append_fun)
      have sep: "lex tn (44 # 10 # ind @ gap @ s) = map_option ((#) TComma) (lex tn s)" for s
        using lex_ws[of "10 # ?ind" tn s] ws by (simp add: lex_punct json_ws_def)
      have tl: "lex tn (10 # ind @ 125 # rest) = map_option ((#) TRBrace) (lex tn rest)"
        using lex_ws[of "10 # ind" tn "125 # rest"] JObj.prems(2)
        by (simp add: lex_punct json_ws_def)
      have "lex tn (join ?sep (map ?f ps) @ 10 # ind @ 125 # rest)
            = map_option ((@) (join [TComma] (map ?g ps))) (lex tn (10 # ind @ 125 # rest))"
        by (rule lex_join) (simp_all add: elem sep number_end_simps False)
      moreover have "lex tn (10 # ?ind @ s) = lex tn s" for s
        using lex_ws[of "10 # ?ind" tn s] ws by (simp add: json_ws_def)
      ultimately show ?thesis
        using False gap_ne
        by (simp add: lex_punct tl option.map_comp comp_def append_fun)
    qed
  qed
qed

lemma JSON_roundtrip:
  assumes "wf_json v" "nums_ok tn nt v"
  shows "JSON_parse tn (JSON_stringify nt w v) = Some v"
proof -
  have "lex tn (serialize nt (replicate (min w 10) 32) [] v @ [])
        = map_option ((@) (tokens_of v)) (lex tn [])"
    by (rule lex_serialize) (simp_all add: assms list_all_iff json_ws_def number_end_simps)
  then have "lex tn (JSON_stringify nt w v) = Some (tokens_of v)"
    by (simp add: JSON_stringify_def lex_Nil)
  then show ?thesis
    by (simp add: JSON_parse_def parse_tokens_of[OF assms(1)])
qed

text \<open>The definitions that evaluate the parser on a given text.\<close>

lemmas json_eval = ustr_def next_token_def lex_number_def lex_int_def lex_frac_def lex_exp_def
  is_digit_def json_ws_def parse_tokens_def JSON_parse_def hex4_val_def hex_val_def unescape_def
  property_set_def is_array_index_def digits_val_def lex.simps

section \<open>Claims\<close>

subsection \<open>C1: round trip\<close>

text \<open>
  C1: for every value \<open>v\<close> (a value of the host: the keys of each object distinct and
  in property order) whose numbers the host writes as literals that read back as the same
  numbers, and for every indent width among 2, 4 and 8, parsing the pretty-printed text of
  \<open>v\<close> gives \<open>v\<close>, and parsing the minified text of \<open>v\<close> gives \<open>v\<close>.
\<close>

theorem stringify_parse_roundtrip:
  assumes "wf_json v" and "nums_ok tn nt v" and "w \<in> {2, 4, 8}"
  shows "JSON_parse tn (JSON_stringify nt w v) = Some v
       \<and> JSON_parse tn (JSON_stringify nt 0 v) = Some v"
  using JSON_roundtrip[OF assms(1,2)] by simp

theorem stringify_parse_roundtrip_witness:
  "wf_json (JObj [(ustr ''name'', JStr (ustr ''x'')),
                  (ustr ''list'', JArr [JNum (ustr ''1''), JNum (ustr ''2'')])])
   \<and> nums_ok id id (JObj [(ustr ''name'', JStr (ustr ''x'')),
                  (ustr ''list'', JArr [JNum (ustr ''1''), JNum (ustr ''2'')])])
   \<and> JSON_stringify id 4 (JObj [(ustr ''name'', JStr (ustr ''x'')),
                  (ustr ''list'', JArr [JNum (ustr ''1''), JNum (ustr ''2'')])])
     = ustr ''{'' @ [10] @ ustr ''    \"name\": \"x\",'' @ [10] @ ustr ''    \"list\": ['' @ [10]
       @ ustr ''        1,'' @ [10] @ ustr ''        2'' @ [10] @ ustr ''    ]'' @ [10] @ ustr ''}''
   \<and> JSON_parse id
        (ustr ''{'' @ [10] @ ustr ''    \"name\": \"x\",'' @ [10] @ ustr ''    \"list\": ['' @ [10]
         @ ustr ''        1,'' @ [10] @ ustr ''        2'' @ [10] @ ustr ''    ]'' @ [10] @ ustr ''}'')
     = Some (JObj [(ustr ''name'', JStr (ustr ''x'')),
                   (ustr ''list'', JArr [JNum (ustr ''1''), JNum (ustr ''2'')])])
   \<and> JSON_parse id (ustr ''{\"name\":\"x\",\"list\":[1,2]}'')
     = Some (JObj [(ustr ''name'', JStr (ustr ''x'')),
                   (ustr ''list'', JArr [JNum (ustr ''1''), JNum (ustr ''2'')])])"
proof -
  let ?v = "JObj [(ustr ''name'', JStr (ustr ''x'')),
                  (ustr ''list'', JArr [JNum (ustr ''1''), JNum (ustr ''2'')])]"
  have w: "wf_json ?v"
    by (simp add: ustr_def prop_ordered_def key_before_def is_array_index_def is_digit_def)
  have n: "nums_ok id id ?v"
    by (simp add: ustr_def lex_number_def lex_int_def lex_frac_def lex_exp_def is_digit_def)
  have "replicate 4 x = [x, x, x, x]" for x :: nat
    by (simp add: numeral_eq_Suc)
  then have rep: "replicate 4 (32::nat) = [32, 32, 32, 32]" by simp
  have s4: "JSON_stringify id 4 ?v
     = ustr ''{'' @ [10] @ ustr ''    \"name\": \"x\",'' @ [10] @ ustr ''    \"list\": ['' @ [10]
       @ ustr ''        1,'' @ [10] @ ustr ''        2'' @ [10] @ ustr ''    ]'' @ [10] @ ustr ''}''"
    by (simp add: JSON_stringify_def rep quote_def ustr_def high_surrogate_def low_surrogate_def)
  have s0: "JSON_stringify id 0 ?v = ustr ''{\"name\":\"x\",\"list\":[1,2]}''"
    by (simp add: JSON_stringify_def quote_def ustr_def high_surrogate_def low_surrogate_def)
  have "(4::nat) \<in> {2, 4, 8}" by simp
  from stringify_parse_roundtrip[OF w n this] w n s4 s0 show ?thesis by simp
qed

subsection \<open>C2: what \<open>sortKeysDeep\<close> returns\<close>

text \<open>
  C2, as stated: every object of the result has its keys in ascending codepoint order at
  every depth.  It fails on the object \<open>{"9": 2, "10": 1}\<close>: whatever order the keys
  are assigned in, the new object enumerates its array indices by value, \<open>9\<close> before
  \<open>10\<close>, while \<open>"10"\<close> precedes \<open>"9"\<close> by code units.  The comparator here is
  the code-unit comparison itself, the most favourable choice for the claim.
\<close>

theorem sortKeysDeep_codepoint_counterexample:
  "\<not> codepoint_sorted (sortKeysDeep cp_compare
        (JObj [(ustr ''9'', JNum (2::int)), (ustr ''10'', JNum 1)]))"
  by (simp add: ustr_def js_sort_def js_assign_def property_set_def cp_compare_def
      is_array_index_def is_digit_def digits_val_def)

text \<open>
  C2, amended: for a consistent comparator \<open>lc\<close> (the program's is \<open>localeCompare\<close>)
  and every value \<open>v\<close>, \<open>sortKeysDeep lc v\<close> is a new value in which an array holds
  the results for its elements in the same order, a scalar is unchanged, and an object
  holds, for each key of \<open>v\<close> other than \<open>__proto__\<close>, the result for that key's value,
  with the array-index keys first in ascending numeric order and the other keys after
  them in the order of \<open>lc\<close>; this holds at every depth.
\<close>

theorem sortKeysDeep_canonical:
  assumes "consistent lc" and "wf_json v"
  shows "(case v of
            JArr xs \<Rightarrow> sortKeysDeep lc v = JArr (map (sortKeysDeep lc) xs)
          | JObj ps \<Rightarrow> sortKeysDeep lc v =
              JObj (map (\<lambda>k. (k, sortKeysDeep lc (the (map_of ps k))))
                      (own_order (js_sort lc (map fst ps))))
          | _ \<Rightarrow> sortKeysDeep lc v = v)
         \<and> sorted_wrt (\<lambda>a b. lc a b \<le> 0) (js_sort lc ks) \<and> mset (js_sort lc ks) = mset ks
         \<and> wf_json (sortKeysDeep lc v) \<and> locale_sorted lc (sortKeysDeep lc v)"
proof -
  have "case v of
            JArr xs \<Rightarrow> sortKeysDeep lc v = JArr (map (sortKeysDeep lc) xs)
          | JObj ps \<Rightarrow> sortKeysDeep lc v =
              JObj (map (\<lambda>k. (k, sortKeysDeep lc (the (map_of ps k))))
                      (own_order (js_sort lc (map fst ps))))
          | _ \<Rightarrow> sortKeysDeep lc v = v"
  proof (cases v)
    case (JObj ps)
    with assms(2) have "distinct (map fst ps)" by simp
    then show ?thesis unfolding JObj json.case by (rule sortKeysDeep_object)
  qed simp_all
  then show ?thesis
    using sortKeysDeep_sorted[OF assms] sorted_js_sort[OF assms(1)] mset_js_sort
    by blast
qed

theorem sortKeysDeep_canonical_witness:
  "consistent cp_compare
   \<and> wf_json (JObj [(ustr ''z'', JObj [(ustr ''b'', JNum (1::int)), (ustr ''a'', JNum 2)])])
   \<and> sortKeysDeep cp_compare
        (JObj [(ustr ''z'', JObj [(ustr ''b'', JNum (1::int)), (ustr ''a'', JNum 2)])])
      = JObj [(ustr ''z'', JObj [(ustr ''a'', JNum 2), (ustr ''b'', JNum 1)])]
   \<and> locale_sorted cp_compare
        (JObj [(ustr ''z'', JObj [(ustr ''a'', JNum (2::int)), (ustr ''b'', JNum 1)])])"
proof -
  let ?v = "JObj [(ustr ''z'', JObj [(ustr ''b'', JNum (1::int)), (ustr ''a'', JNum 2)])]"
  have w: "wf_json ?v"
    by (simp add: ustr_def prop_ordered_def key_before_def is_array_index_def is_digit_def)
  have e: "sortKeysDeep cp_compare ?v
      = JObj [(ustr ''z'', JObj [(ustr ''a'', JNum 2), (ustr ''b'', JNum 1)])]"
    by (simp add: ustr_def js_sort_def js_assign_def property_set_def cp_compare_def
        is_array_index_def is_digit_def digits_val_def)
  from sortKeysDeep_canonical[OF consistent_cp_compare w]
  have "locale_sorted cp_compare (sortKeysDeep cp_compare ?v)" by blast
  with e w consistent_cp_compare show ?thesis by simp
qed

subsection \<open>C3: the key count of \<open>updateKpis\<close>\<close>

text \<open>
  C3, as stated: a scalar at the top level gives the Unknown sentinel.  It fails on the
  text \<open>"a string"\<close>: the text parses, the value is neither an array nor an object, and
  the third branch of the conditional sets the count \<open>0\<close>, not the dash.
\<close>

theorem updateKpis_scalar_counterexample:
  "JSON_parse id (ustr ''\"a string\"'') = Some (JStr (ustr ''a string''))
   \<and> kpi_keys (updateKpis (JSON_parse id)
        \<lparr>cm_value = ustr ''\"a string\"'', cursor = (Exact 0, Exact 0), status = [], statusType = None,
         kpi_size = 0, kpi_lines = 0, kpi_keys = Dash, timer = None, end_hidden = False\<rparr>) = Keys 0"
  by (simp add: updateKpis_def keysCount_def Let_def json_eval)

text \<open>
  C3, amended: for every text, \<open>updateKpis\<close> sets the key count to the number of
  elements when the text parses to an array, to the number of distinct keys when it
  parses to an object, to \<open>0\<close> when it parses to a scalar (\<open>null\<close>, a boolean, a number
  or a string), and to the dash when the text does not parse; it changes neither the
  status line nor the document nor the cursor.
\<close>

theorem updateKpis_cardinality:
  "kpi_keys (updateKpis (JSON_parse tn) st) =
     (case JSON_parse tn (cm_value st) of
        None \<Rightarrow> Dash
      | Some (JArr xs) \<Rightarrow> Keys (length xs)
      | Some (JObj ps) \<Rightarrow> Keys (card (fst ` set ps))
      | Some _ \<Rightarrow> Keys 0)
   \<and> status (updateKpis (JSON_parse tn) st) = status st
   \<and> statusType (updateKpis (JSON_parse tn) st) = statusType st
   \<and> cm_value (updateKpis (JSON_parse tn) st) = cm_value st
   \<and> cursor (updateKpis (JSON_parse tn) st) = cursor st"
proof -
  have "length ps = card (fst ` set ps)" if "JSON_parse tn (cm_value st) = Some (JObj ps)" for ps
  proof -
    from wf_JSON_parse[OF that] have "distinct (map fst ps)" by simp
    then show ?thesis by (metis distinct_card length_map set_map)
  qed
  then show ?thesis
    by (auto simp: updateKpis_def keysCount_def Let_def split: option.splits json.splits)
qed

theorem updateKpis_cardinality_witness:
  "kpi_keys (updateKpis (JSON_parse id)
        \<lparr>cm_value = ustr ''{\"a\":1,\"b\":2,\"a\":3}'', cursor = (Exact 0, Exact 0), status = [],
         statusType = None, kpi_size = 0, kpi_lines = 0, kpi_keys = Dash, timer = None, end_hidden = False\<rparr>)
     = Keys (card {ustr ''a'', ustr ''b''})
   \<and> kpi_keys (updateKpis (JSON_parse id)
        \<lparr>cm_value = ustr ''{\"a\":1,}'', cursor = (Exact 0, Exact 0), status = [],
         statusType = None, kpi_size = 0, kpi_lines = 0, kpi_keys = Dash, timer = None, end_hidden = False\<rparr>)
     = Dash"
proof -
  let ?st = "\<lparr>cm_value = ustr ''{\"a\":1,\"b\":2,\"a\":3}'', cursor = (Exact 0, Exact 0), status = [],
         statusType = None, kpi_size = 0, kpi_lines = 0, kpi_keys = Dash, timer = None, end_hidden = False\<rparr>"
  let ?st' = "\<lparr>cm_value = ustr ''{\"a\":1,}'', cursor = (Exact 0, Exact 0), status = [],
         statusType = None, kpi_size = 0, kpi_lines = 0, kpi_keys = Dash, timer = None, end_hidden = False\<rparr>"
  have p: "JSON_parse id (cm_value ?st) = Some (JObj [(ustr ''a'', JNum (ustr ''3'')), (ustr ''b'', JNum (ustr ''2''))])"
    by (simp add: json_eval)
  have p': "JSON_parse id (cm_value ?st') = None"
    by (simp add: json_eval)
  from updateKpis_cardinality[of id ?st] p
  have "kpi_keys (updateKpis (JSON_parse id) ?st) = Keys (card {ustr ''a'', ustr ''b''})"
    by (simp add: insert_commute)
  moreover from updateKpis_cardinality[of id ?st'] p'
  have "kpi_keys (updateKpis (JSON_parse id) ?st') = Dash" by simp
  ultimately show ?thesis by simp
qed

subsection \<open>C4: the operations on a text that does not parse\<close>

text \<open>
  C4: when the parser throws on the document, \<open>formatJson\<close>, \<open>minifyJson\<close> and
  \<open>sortKeys\<close> write nothing into the editor, so the document text is unchanged, and
  each ends in exactly the state in which \<open>validate\<close> ends on the same document: the
  same status line, the same status type, the same cursor.
\<close>

theorem operations_surface_validate_error:
  assumes "P (cm_value st) = Inl e"
  shows "formatJson P J nt w now st = snd (validate P st)
       \<and> minifyJson P J nt now st = snd (validate P st)
       \<and> sortKeys P J nt lc now st = snd (validate P st)
       \<and> cm_value (snd (validate P st)) = cm_value st"
  using assms by (simp add: formatJson_def minifyJson_def sortKeys_def validate_cm_value)

theorem operations_surface_validate_error_witness:
  "(\<lambda>s. case JSON_parse id s of
           None \<Rightarrow> Inl \<lparr>message = ustr ''Parse error on line 1:'', err_line = None, err_column = None\<rparr>
         | Some v \<Rightarrow> Inr v) (ustr ''{\"a\":1,}'')
     = Inl \<lparr>message = ustr ''Parse error on line 1:'', err_line = None, err_column = None\<rparr>
   \<and> formatJson
        (\<lambda>s. case JSON_parse id s of
           None \<Rightarrow> Inl \<lparr>message = ustr ''Parse error on line 1:'', err_line = None, err_column = None\<rparr>
         | Some v \<Rightarrow> Inr v)
        (JSON_parse id) id 2 0
        \<lparr>cm_value = ustr ''{\"a\":1,}'', cursor = (Exact 5, Exact 5), status = [], statusType = None,
         kpi_size = 8, kpi_lines = 1, kpi_keys = Dash, timer = None, end_hidden = False\<rparr>
     = \<lparr>cm_value = ustr ''{\"a\":1,}'', cursor = (Exact 0, Exact 0),
        status = ustr ''Invalid JSON: Parse error on line 1:'', statusType = Some Danger,
        kpi_size = 8, kpi_lines = 1, kpi_keys = Dash, timer = None, end_hidden = False\<rparr>"
proof -
  let ?e = "\<lparr>message = ustr ''Parse error on line 1:'', err_line = None, err_column = None\<rparr>"
  let ?P = "\<lambda>s. case JSON_parse id s of None \<Rightarrow> Inl ?e | Some v \<Rightarrow> Inr v"
  let ?st = "\<lparr>cm_value = ustr ''{\"a\":1,}'', cursor = (Exact 5, Exact 5), status = [], statusType = None,
         kpi_size = 8, kpi_lines = 1, kpi_keys = Dash, timer = None, end_hidden = False\<rparr>"
  have p: "JSON_parse id (ustr ''{\"a\":1,}'') = None"
    by (simp add: json_eval)
  then have f: "?P (cm_value ?st) = Inl ?e" by simp
  have t: "trim (ustr ''{\"a\":1,}'') = ustr ''{\"a\":1,}''"
    by (simp add: trim_def ustr_def js_ws_def)
  have x: "extractLineCol (message ?e) = (Some (Exact 0), None)"
    by (simp add: extractLineCol_def Number_less_one_def re_at_def ustr_def upper_def js_ws_def
        is_digit_def digits_val_def)
  have v: "snd (validate ?P ?st)
     = \<lparr>cm_value = ustr ''{\"a\":1,}'', cursor = (Exact 0, Exact 0),
        status = ustr ''Invalid JSON: Parse error on line 1:'', statusType = Some Danger,
        kpi_size = 8, kpi_lines = 1, kpi_keys = Dash, timer = None, end_hidden = False\<rparr>"
    unfolding validate_def
    by (simp add: trim_def js_ws_def json_eval extractLineCol_def Number_less_one_def re_at_def
        upper_def scrollToError_def no_such_line_def lineCount_def Let_def)
  have "formatJson ?P (JSON_parse id) id 2 0 ?st = snd (validate ?P ?st)"
    using operations_surface_validate_error[where P = ?P and st = ?st, OF f] by blast
  with v p show ?thesis by simp
qed

subsection \<open>C5: strictness of the parser\<close>



subsection \<open>C6: empty and blank documents\<close>

text \<open>
  C6: when the document is empty or holds white space only, \<open>validate\<close> fails with the
  status \<open>Please enter JSON.\<close>, which is not the message of a grammar failure
  (\<open>Invalid JSON: \<close> followed by the parser's message) and names no line and no column,
  and it does not move the cursor; the parser is not called.
\<close>

theorem validate_blank:
  assumes "list_all js_ws (cm_value st)"
  shows "validate P st =
           (Return False,
            st\<lparr>status := ustr ''Please enter JSON.'', statusType := Some Danger\<rparr>)
         \<and> (\<forall>m. ustr ''Please enter JSON.'' \<noteq> ustr ''Invalid JSON: '' @ m)
         \<and> extractLineCol (ustr ''Please enter JSON.'') = (None, None)
         \<and> cursor (snd (validate P st)) = cursor st"
  using assms by (simp add: validate_def trim_blank please_enter_no_position) (simp add: ustr_def)

theorem validate_blank_witness:
  "list_all js_ws [32, 9, 10, 13]
   \<and> validate (\<lambda>s. Inr ())
        \<lparr>cm_value = [32, 9, 10, 13], cursor = (Exact 0, Exact 0), status = [], statusType = None,
         kpi_size = 0, kpi_lines = 0, kpi_keys = Dash, timer = None, end_hidden = False\<rparr>
     = (Return False,
        \<lparr>cm_value = [32, 9, 10, 13], cursor = (Exact 0, Exact 0), status = ustr ''Please enter JSON.'',
         statusType = Some Danger, kpi_size = 0, kpi_lines = 0, kpi_keys = Dash,
         timer = None, end_hidden = False\<rparr>)"
proof -
  have w: "list_all js_ws [32, 9, 10, 13]" by (simp add: js_ws_def)
  let ?st = "\<lparr>cm_value = [32, 9, 10, 13], cursor = (Exact 0, Exact 0), status = [], statusType = None,
        kpi_size = 0, kpi_lines = 0, kpi_keys = Dash, timer = None, end_hidden = False\<rparr>"
  have "list_all js_ws (cm_value ?st)" using w by simp
  from validate_blank[OF this, of "\<lambda>s. Inr ()"] w show ?thesis by simp
qed

subsection \<open>C7: the line count\<close>

text \<open>
  C7, as stated: a trailing line terminator does not start another line, so
  \<open>"a\nb\n"\<close> has two lines.  The count is the editor's, and the editor holds an empty
  last line after a trailing terminator: the count is three.
\<close>

theorem lineCount_trailing_terminator_counterexample:
  "lineCount (ustr ''a'' @ [10] @ ustr ''b'' @ [10]) \<noteq> 2"
  by (simp add: lineCount_def ustr_def)

text \<open>
  C7, amended: the line count \<open>updateKpis\<close> shows is the number of segments the line
  separators delimit, the empty segment after a trailing terminator included; it is one
  more than the number of line feeds of a text without carriage return.  \<open>"a\nb"\<close>
  gives 2, \<open>"a\nb\n"\<close> gives 3, \<open>"a\nb\nc"\<close> gives 3 and the empty text gives 1.
\<close>

theorem lineCount_segments:
  "kpi_lines (updateKpis J st) = lineCount (cm_value st)
   \<and> (13 \<notin> set s \<longrightarrow> lineCount s = Suc (count_list s 10))
   \<and> lineCount [] = 1
   \<and> lineCount (ustr ''a'' @ [10] @ ustr ''b'') = 2
   \<and> lineCount (ustr ''a'' @ [10] @ ustr ''b'' @ [10]) = 3
   \<and> lineCount (ustr ''a'' @ [10] @ ustr ''b'' @ [10] @ ustr ''c'') = 3"
  using lineCount_examples lineCount_no_cr[of s]
  by (simp add: updateKpis_def Let_def)

theorem lineCount_segments_witness:
  "13 \<notin> set (ustr ''{'' @ [10, 10] @ ustr ''}'' @ [10])
   \<and> lineCount (ustr ''{'' @ [10, 10] @ ustr ''}'' @ [10]) = 4"
proof -
  have h: "13 \<notin> set (ustr ''{'' @ [10, 10] @ ustr ''}'' @ [10])" by (simp add: ustr_def)
  from lineCount_segments[of undefined undefined "ustr ''{'' @ [10, 10] @ ustr ''}'' @ [10]"] h
  have "lineCount (ustr ''{'' @ [10, 10] @ ustr ''}'' @ [10])
        = Suc (count_list (ustr ''{'' @ [10, 10] @ ustr ''}'' @ [10]) 10)"
    by blast
  then show ?thesis using h by (simp add: ustr_def)
qed

subsection \<open>C8: where \<open>validate\<close> takes the position of an error from\<close>

text \<open>
  C8, as stated: the position comes from structured fields of the error, never from the
  text of its message, and without a position the cursor stays.  It fails both ways.
  An error that carries no position but whose message reads \<open>... line 3 column 4\<close>
  moves the cursor to \<open>(2, 3)\<close>, in a document of three lines; an error that carries
  the position \<open>(0, 7)\<close> but whose message names no line leaves the cursor where it was.
\<close>

theorem validate_position_counterexample:
  "validate
      (\<lambda>s. Inl \<lparr>message = ustr ''Unexpected token at line 3 column 4'',
                 err_line = None, err_column = None\<rparr> :: parse_error + unit)
      \<lparr>cm_value = ustr ''['' @ [10] @ ustr ''1,'' @ [10] @ ustr ''2,,3]'',
       cursor = (Exact 5, Exact 5), status = [], statusType = None,
       kpi_size = 10, kpi_lines = 3, kpi_keys = Dash, timer = None, end_hidden = True\<rparr>
    = (Return False,
       \<lparr>cm_value = ustr ''['' @ [10] @ ustr ''1,'' @ [10] @ ustr ''2,,3]'',
        cursor = (Exact 2, Exact 3),
        status = ustr ''Invalid JSON: Unexpected token at line 3 column 4'',
        statusType = Some Danger,
        kpi_size = 10, kpi_lines = 3, kpi_keys = Dash, timer = None, end_hidden = True\<rparr>)
   \<and> validate
      (\<lambda>s. Inl \<lparr>message = ustr ''Unexpected end of input'',
                 err_line = Some 0, err_column = Some 7\<rparr> :: parse_error + unit)
      \<lparr>cm_value = ustr ''{\"a\":'', cursor = (Exact 5, Exact 5), status = [], statusType = None,
       kpi_size = 5, kpi_lines = 1, kpi_keys = Dash, timer = None, end_hidden = False\<rparr>
    = (Return False,
       \<lparr>cm_value = ustr ''{\"a\":'', cursor = (Exact 5, Exact 5),
        status = ustr ''Invalid JSON: Unexpected end of input'', statusType = Some Danger,
        kpi_size = 5, kpi_lines = 1, kpi_keys = Dash, timer = None, end_hidden = False\<rparr>)"
  unfolding validate_def
  by (simp add: trim_def js_ws_def extractLineCol_def Number_less_one_def re_at_def upper_def
      ustr_def is_digit_def digits_val_def scrollToError_def no_such_line_def lineCount_def
      Let_def)

text \<open>
  C8, amended: for every error the parser throws, \<open>validate\<close> shows the message and
  reconstructs the position from the text of the message alone: the line is the number
  that follows the first \<open>line\<close> and white space in the message, less one, and the
  column the number that follows the first \<open>column\<close> and white space, less one (column
  \<open>0\<close> when the message names none).  When the message names no line, \<open>validate\<close>
  returns false and the cursor is not moved.  When it names a line of the document (from
  1 to the number of its lines), \<open>validate\<close> returns false with the cursor placed at that
  line and column.  When it names line 0, the editor throws for the line \<open>-1\<close>:
  \<open>validate\<close> ends by that exception and the cursor is not moved.  When it names a line
  after the last one, the editor throws in the same way if the document reaches below
  the part it displays, and otherwise the cursor is given that position.  The numbers are
  exact below \<open>2^53\<close>.
\<close>

theorem validate_position_from_message:
  assumes "trim (cm_value st) \<noteq> []" and "P (trim (cm_value st)) = Inl e"
  shows "validate P st =
           (case re_find (ustr ''line'') (message e) of
              None \<Rightarrow>
                (Return False,
                 st\<lparr>status := ustr ''Invalid JSON: '' @ message e, statusType := Some Danger\<rparr>)
            | Some ds \<Rightarrow>
                if digits_val ds = 0 then
                  (Throw,
                   st\<lparr>status := ustr ''Invalid JSON: '' @ message e, statusType := Some Danger\<rparr>)
                else if digits_val ds \<le> lineCount (cm_value st)
                        \<and> digits_val ds < 9007199254740992 then
                  (Return False,
                   st\<lparr>status := ustr ''Invalid JSON: '' @ message e, statusType := Some Danger,
                      cursor := (Exact (int (digits_val ds) - 1),
                                 case re_find (ustr ''column'') (message e) of
                                   None \<Rightarrow> Exact 0
                                 | Some cs \<Rightarrow>
                                     if digits_val cs < 9007199254740992
                                     then Exact (int (digits_val cs) - 1) else Huge)\<rparr>)
                else if end_hidden st then
                  (Throw,
                   st\<lparr>status := ustr ''Invalid JSON: '' @ message e, statusType := Some Danger\<rparr>)
                else
                  (Return False,
                   st\<lparr>status := ustr ''Invalid JSON: '' @ message e, statusType := Some Danger,
                      cursor := (Number_less_one ds,
                                 case re_find (ustr ''column'') (message e) of
                                   None \<Rightarrow> Exact 0
                                 | Some cs \<Rightarrow> Number_less_one cs)\<rparr>))
         \<and> (\<forall>w ds. re_find w (message e) = Some ds \<longrightarrow> pattern_match w (message e) ds)
         \<and> (\<forall>w. re_find w (message e) = None \<longrightarrow> (\<forall>ds. \<not> pattern_match w (message e) ds))"
proof -
  let ?shown = "st\<lparr>status := ustr ''Invalid JSON: '' @ message e, statusType := Some Danger\<rparr>"
  let ?col = "case re_find (ustr ''column'') (message e) of
                None \<Rightarrow> Exact 0 | Some cs \<Rightarrow> Number_less_one cs"
  have v: "validate P st =
      (case re_find (ustr ''line'') (message e) of
         None \<Rightarrow> (Return False, ?shown)
       | Some ds \<Rightarrow>
           if no_such_line (Number_less_one ds) ?shown then (Throw, ?shown)
           else (Return False, ?shown\<lparr>cursor := (Number_less_one ds, ?col)\<rparr>))"
    using assms
    by (simp add: validate_def extractLineCol_def scrollToError_def Let_def
        split: option.splits)
  have n: "no_such_line (Number_less_one ds) ?shown
      = (digits_val ds = 0
         \<or> (\<not> (digits_val ds \<le> lineCount (cm_value st) \<and> digits_val ds < 9007199254740992)
            \<and> end_hidden st))" for ds
    by (auto simp: no_such_line_def Number_less_one_def)
  have "validate P st =
           (case re_find (ustr ''line'') (message e) of
              None \<Rightarrow> (Return False, ?shown)
            | Some ds \<Rightarrow>
                if digits_val ds = 0 then (Throw, ?shown)
                else if digits_val ds \<le> lineCount (cm_value st)
                        \<and> digits_val ds < 9007199254740992 then
                  (Return False,
                   ?shown\<lparr>cursor := (Exact (int (digits_val ds) - 1),
                                 case re_find (ustr ''column'') (message e) of
                                   None \<Rightarrow> Exact 0
                                 | Some cs \<Rightarrow>
                                     if digits_val cs < 9007199254740992
                                     then Exact (int (digits_val cs) - 1) else Huge)\<rparr>)
                else if end_hidden st then (Throw, ?shown)
                else (Return False, ?shown\<lparr>cursor := (Number_less_one ds, ?col)\<rparr>))"
    unfolding v n
    by (auto simp: Number_less_one_def split: option.splits)
  then show ?thesis
    using re_find_sound re_find_complete by blast
qed

theorem validate_position_from_message_witness:
  "trim (ustr '' [1,]'' @ [10]) \<noteq> []
   \<and> validate
        (\<lambda>s. Inl \<lparr>message = ustr ''Parse error on line 1:'', err_line = None,
                   err_column = None\<rparr> :: parse_error + unit)
        \<lparr>cm_value = ustr '' [1,]'' @ [10], cursor = (Exact 5, Exact 5), status = [],
         statusType = None, kpi_size = 6, kpi_lines = 2, kpi_keys = Dash, timer = None,
         end_hidden = False\<rparr>
      = (Return False,
         \<lparr>cm_value = ustr '' [1,]'' @ [10], cursor = (Exact 0, Exact 0),
          status = ustr ''Invalid JSON: Parse error on line 1:'', statusType = Some Danger,
          kpi_size = 6, kpi_lines = 2, kpi_keys = Dash, timer = None, end_hidden = False\<rparr>)
   \<and> validate
        (\<lambda>s. Inl \<lparr>message = ustr ''Bad input at line 0 column 2'', err_line = None,
                   err_column = None\<rparr> :: parse_error + unit)
        \<lparr>cm_value = ustr '' [1,]'' @ [10], cursor = (Exact 5, Exact 5), status = [],
         statusType = None, kpi_size = 6, kpi_lines = 2, kpi_keys = Dash, timer = None,
         end_hidden = False\<rparr>
      = (Throw,
         \<lparr>cm_value = ustr '' [1,]'' @ [10], cursor = (Exact 5, Exact 5),
          status = ustr ''Invalid JSON: Bad input at line 0 column 2'', statusType = Some Danger,
          kpi_size = 6, kpi_lines = 2, kpi_keys = Dash, timer = None, end_hidden = False\<rparr>)
   \<and> re_find (ustr ''line'') (ustr ''Parse error on line 1:'') = Some (ustr ''1'')
   \<and> pattern_match (ustr ''line'') (ustr ''Parse error on line 1:'') (ustr ''1'')
   \<and> re_find (ustr ''column'') (ustr ''Parse error on line 1:'') = None
   \<and> (\<forall>ds. \<not> pattern_match (ustr ''column'') (ustr ''Parse error on line 1:'') ds)"
proof -
  let ?e = "\<lparr>message = ustr ''Parse error on line 1:'', err_line = None, err_column = None\<rparr>"
  let ?ez = "\<lparr>message = ustr ''Bad input at line 0 column 2'', err_line = None,
             err_column = None\<rparr>"
  let ?P = "\<lambda>s. Inl ?e :: parse_error + unit"
  let ?Pz = "\<lambda>s. Inl ?ez :: parse_error + unit"
  let ?st = "\<lparr>cm_value = ustr '' [1,]'' @ [10], cursor = (Exact 5, Exact 5), status = [],
         statusType = None, kpi_size = 6, kpi_lines = 2, kpi_keys = Dash, timer = None,
         end_hidden = False\<rparr>"
  have t: "trim (cm_value ?st) \<noteq> []"
    by (simp add: trim_def ustr_def js_ws_def)
  have p: "?P (trim (cm_value ?st)) = Inl ?e" by simp
  have pz: "?Pz (trim (cm_value ?st)) = Inl ?ez" by simp
  have l: "re_find (ustr ''line'') (message ?e) = Some (ustr ''1'')"
    by (simp add: re_at_def ustr_def upper_def js_ws_def is_digit_def)
  have c: "re_find (ustr ''column'') (message ?e) = None"
    by (simp add: re_at_def ustr_def upper_def js_ws_def is_digit_def)
  have lz: "re_find (ustr ''line'') (message ?ez) = Some (ustr ''0'')"
    by (simp add: re_at_def ustr_def upper_def js_ws_def is_digit_def)
  have d: "digits_val (ustr ''1'') = 1" "digits_val (ustr ''0'') = 0"
    by (simp_all add: digits_val_def ustr_def)
  have n: "lineCount (cm_value ?st) = 2"
    by (simp add: lineCount_def ustr_def)
  from validate_position_from_message[where P = ?P and st = ?st, OF t p]
  have "validate ?P ?st =
      (Return False,
       ?st\<lparr>status := ustr ''Invalid JSON: '' @ message ?e, statusType := Some Danger,
           cursor := (Exact 0, Exact 0)\<rparr>)"
    by (simp only: l c d n option.case) simp
  moreover from validate_position_from_message[where P = ?Pz and st = ?st, OF t pz]
  have "validate ?Pz ?st =
      (Throw, ?st\<lparr>status := ustr ''Invalid JSON: '' @ message ?ez, statusType := Some Danger\<rparr>)"
    by (simp only: lz d option.case) simp
  moreover have "trim (ustr '' [1,]'' @ [10]) \<noteq> []" using t by simp
  ultimately have v: "trim (ustr '' [1,]'' @ [10]) \<noteq> []
   \<and> validate ?P ?st
      = (Return False,
         \<lparr>cm_value = ustr '' [1,]'' @ [10], cursor = (Exact 0, Exact 0),
          status = ustr ''Invalid JSON: Parse error on line 1:'', statusType = Some Danger,
          kpi_size = 6, kpi_lines = 2, kpi_keys = Dash, timer = None, end_hidden = False\<rparr>)
   \<and> validate ?Pz ?st
      = (Throw,
         \<lparr>cm_value = ustr '' [1,]'' @ [10], cursor = (Exact 5, Exact 5),
          status = ustr ''Invalid JSON: Bad input at line 0 column 2'', statusType = Some Danger,
          kpi_size = 6, kpi_lines = 2, kpi_keys = Dash, timer = None, end_hidden = False\<rparr>)"
    by (simp add: ustr_def)
  from validate_position_from_message[where P = ?P and st = ?st, OF t p] l c
  have m: "pattern_match (ustr ''line'') (message ?e) (ustr ''1'')
      \<and> (\<forall>ds. \<not> pattern_match (ustr ''column'') (message ?e) ds)"
    by blast
  from v m l c show ?thesis by simp
qed

subsection \<open>C9: the change handler\<close>

text \<open>
  C9, as stated: after an edit both the validation and the metrics wait for the debounce
  window.  The metrics do not wait: the change handler calls \<open>updateKpis\<close> before it
  touches the timer.  Directly after the edit \<open>[1,2,3]\<close>, with no time passed, the key
  count is already 3 and the size 7, while the validation is still pending (the timer is
  due at 400 and the status is unchanged).
\<close>

theorem metrics_not_debounced_counterexample:
  "handle
     \<lparr>jsonlint_parse = (\<lambda>s. case JSON_parse id s of
          None \<Rightarrow> Inl \<lparr>message = ustr ''Parse error on line 1:'', err_line = None,
                       err_column = None\<rparr>
        | Some v \<Rightarrow> Inr v),
      json_parse = JSON_parse id, number_text = id, localeCompare = cp_compare,
      indent = 2, autoValidate = True\<rparr>
     (Edit (ustr ''[1,2,3]''))
     (0, \<lparr>cm_value = [], cursor = (Exact 0, Exact 0), status = ustr ''Cleared.'', statusType = None,
          kpi_size = 0, kpi_lines = 1, kpi_keys = Dash, timer = None, end_hidden = False\<rparr>)
   = Some (0, \<lparr>cm_value = ustr ''[1,2,3]'', cursor = (Exact 0, Exact 0), status = ustr ''Cleared.'',
          statusType = None, kpi_size = 7, kpi_lines = 1, kpi_keys = Keys 3,
          timer = Some 400, end_hidden = False\<rparr>)"
  by (simp add: setValue_def on_change_def updateKpis_def keysCount_def lineCount_def Let_def
      json_eval)

text \<open>
  C9, amended: every edit recomputes the metrics at once and replaces the pending
  validation, if any, by one due 400 ms later.  The callback of the timer therefore never
  runs earlier than 400 ms after the most recent edit, and when it runs it validates the
  document as it is then, so no result for an older text is shown.  A press of Validate,
  Format, Minify or Sort Keys runs its operation at once, whatever the timer.
\<close>

theorem debounced_validation:
  "(handle h (Edit s) (now, st) = Some (now, st')
      \<longrightarrow> timer st' = Some (now + 400)
        \<and> cm_value st' = join [10] (splitLines s)
        \<and> kpi_size st' = utf8_size (cm_value st')
        \<and> kpi_lines st' = lineCount (cm_value st')
        \<and> kpi_keys st' = (case json_parse h (cm_value st') of
                            Some obj \<Rightarrow> Keys (keysCount obj) | None \<Rightarrow> Dash)
        \<and> status st' = status st \<and> statusType st' = statusType st)
   \<and> (exec h (Edit s # mid) (now, st) = Some (n1, s1) \<and> Fire \<notin> set mid
        \<and> handle h Fire (n1, s1) = Some c
      \<longrightarrow> now + 400 \<le> n1
        \<and> c = (n1, on_timeout (jsonlint_parse h) (autoValidate h) s1)
        \<and> cm_value (snd c) = cm_value s1 \<and> timer (snd c) = None)
   \<and> handle h (Press Validate) (now, st) = Some (now, snd (validate (jsonlint_parse h) st))
   \<and> handle h (Press Format) (now, st) =
       Some (now, formatJson (jsonlint_parse h) (json_parse h) (number_text h) (indent h) now st)
   \<and> handle h (Press Minify) (now, st) =
       Some (now, minifyJson (jsonlint_parse h) (json_parse h) (number_text h) now st)
   \<and> handle h (Press SortKeys) (now, st) =
       Some (now, sortKeys (jsonlint_parse h) (json_parse h) (number_text h) (localeCompare h)
                    now st)"
proof -
  have a: "timer st' = Some (now + 400)
        \<and> cm_value st' = join [10] (splitLines s)
        \<and> kpi_size st' = utf8_size (cm_value st')
        \<and> kpi_lines st' = lineCount (cm_value st')
        \<and> kpi_keys st' = (case json_parse h (cm_value st') of
                            Some obj \<Rightarrow> Keys (keysCount obj) | None \<Rightarrow> Dash)
        \<and> status st' = status st \<and> statusType st' = statusType st"
    if "handle h (Edit s) (now, st) = Some (now, st')"
    using that by (auto simp: setValue_def on_change_def updateKpis_def Let_def)
  have b: "now + 400 \<le> n1
        \<and> c = (n1, on_timeout (jsonlint_parse h) (autoValidate h) s1)
        \<and> cm_value (snd c) = cm_value s1 \<and> timer (snd c) = None"
    if "exec h (Edit s # mid) (now, st) = Some (n1, s1)" "Fire \<notin> set mid"
      "handle h Fire (n1, s1) = Some c"
  proof -
    from debounce[OF that] have c: "now + 400 \<le> n1"
      "c = (n1, on_timeout (jsonlint_parse h) (autoValidate h) s1)" by auto
    have "cm_value (on_timeout P av s1) = cm_value s1" for P :: "jstring \<Rightarrow> parse_error + 'a json" and av
      using validate_cm_value[of P "s1\<lparr>timer := None\<rparr>"]
      by (auto simp: on_timeout_def Let_def split: prod.splits completion.splits bool.splits)
    moreover have "timer (on_timeout P av s1) = None" for P :: "jstring \<Rightarrow> parse_error + 'a json" and av
      using timer_validate[of P "s1\<lparr>timer := None\<rparr>"]
      by (auto simp: on_timeout_def Let_def split: prod.splits completion.splits bool.splits)
    ultimately show ?thesis using c by simp
  qed
  from a b show ?thesis by simp
qed

theorem debounced_validation_witness:
  "exec
     \<lparr>jsonlint_parse = (\<lambda>s. case JSON_parse id s of
          None \<Rightarrow> Inl \<lparr>message = ustr ''Parse error on line 1:'', err_line = None,
                       err_column = None\<rparr>
        | Some v \<Rightarrow> Inr v),
      json_parse = JSON_parse id, number_text = id, localeCompare = cp_compare,
      indent = 2, autoValidate = True\<rparr>
     [Edit (ustr ''[1,2]''), Pass 400]
     (150, \<lparr>cm_value = ustr ''[1]'', cursor = (Exact 0, Exact 0), status = [], statusType = None,
          kpi_size = 3, kpi_lines = 1, kpi_keys = Keys 1, timer = Some 400, end_hidden = False\<rparr>)
   = Some (550, \<lparr>cm_value = ustr ''[1,2]'', cursor = (Exact 0, Exact 0), status = [], statusType = None,
          kpi_size = 5, kpi_lines = 1, kpi_keys = Keys 2, timer = Some 550, end_hidden = False\<rparr>)
   \<and> handle
     \<lparr>jsonlint_parse = (\<lambda>s. case JSON_parse id s of
          None \<Rightarrow> Inl \<lparr>message = ustr ''Parse error on line 1:'', err_line = None,
                       err_column = None\<rparr>
        | Some v \<Rightarrow> Inr v),
      json_parse = JSON_parse id, number_text = id, localeCompare = cp_compare,
      indent = 2, autoValidate = True\<rparr>
     Fire
     (550, \<lparr>cm_value = ustr ''[1,2]'', cursor = (Exact 0, Exact 0), status = [], statusType = None,
          kpi_size = 5, kpi_lines = 1, kpi_keys = Keys 2, timer = Some 550, end_hidden = False\<rparr>)
   = Some (550, \<lparr>cm_value = ustr ''[1,2]'', cursor = (Exact 0, Exact 0),
          status = ustr ''Looks good '' @ [10003], statusType = Some Success,
          kpi_size = 5, kpi_lines = 1, kpi_keys = Keys 2, timer = None, end_hidden = False\<rparr>)"
proof -
  let ?P = "\<lambda>s. case JSON_parse id s of
          None \<Rightarrow> Inl \<lparr>message = ustr ''Parse error on line 1:'', err_line = None,
                       err_column = None\<rparr>
        | Some v \<Rightarrow> Inr v"
  let ?h = "\<lparr>jsonlint_parse = ?P,
      json_parse = JSON_parse id, number_text = id, localeCompare = cp_compare,
      indent = 2, autoValidate = True\<rparr>"
  let ?st = "\<lparr>cm_value = ustr ''[1]'', cursor = (Exact 0, Exact 0), status = [], statusType = None,
          kpi_size = 3, kpi_lines = 1, kpi_keys = Keys 1, timer = Some 400, end_hidden = False\<rparr>"
  let ?s1 = "\<lparr>cm_value = ustr ''[1,2]'', cursor = (Exact 0, Exact 0), status = [], statusType = None,
          kpi_size = 5, kpi_lines = 1, kpi_keys = Keys 2, timer = Some 550, end_hidden = False\<rparr>"
  let ?c = "(550, \<lparr>cm_value = ustr ''[1,2]'', cursor = (Exact 0, Exact 0),
          status = ustr ''Looks good '' @ [10003], statusType = Some Success,
          kpi_size = 5, kpi_lines = 1, kpi_keys = Keys 2, timer = None, end_hidden = False\<rparr>)"
  have e: "exec ?h (Edit (ustr ''[1,2]'') # [Pass 400]) (150, ?st) = Some (550, ?s1)"
    by (simp add: setValue_def on_change_def updateKpis_def keysCount_def lineCount_def Let_def
        json_eval)
  have f: "handle ?h Fire (550, ?s1) = Some ?c"
    by (simp add: on_timeout_def validate_def trim_def js_ws_def Let_def json_eval)
  have n: "Fire \<notin> set [Pass 400]" by simp
  from debounced_validation[where h = ?h and s = "ustr ''[1,2]''" and mid = "[Pass 400]"
      and now = 150 and st = ?st and ?n1.0 = 550 and ?s1.0 = ?s1 and c = ?c] e n f
  have "(150::nat) + 400 \<le> 550
      \<and> ?c = (550, on_timeout (jsonlint_parse ?h) (autoValidate ?h) ?s1)"
    by blast
  with e f show ?thesis by simp
qed

subsection \<open>C10: idempotence\<close>

text \<open>
  C10: for a consistent comparator and every value \<open>v\<close> of the host, sorting the keys
  of the sorted value changes nothing; and when the numbers of \<open>v\<close> are written as
  literals that read back, minifying the value read from the minified text of \<open>v\<close> gives
  that same text, which reads back as \<open>v\<close>.
\<close>

theorem sortKeysDeep_minify_idempotent:
  assumes "consistent lc" and "wf_json v" and "nums_ok tn nt v"
  shows "sortKeysDeep lc (sortKeysDeep lc v) = sortKeysDeep lc v
       \<and> (\<exists>m. JSON_parse tn (JSON_stringify nt 0 v) = Some m
              \<and> JSON_stringify nt 0 m = JSON_stringify nt 0 v
              \<and> JSON_parse tn (JSON_stringify nt 0 m) = Some v)"
  using sortKeysDeep_idem[OF assms(1,2)] JSON_roundtrip[OF assms(2,3), of 0] by simp

theorem sortKeysDeep_minify_idempotent_witness:
  "consistent cp_compare
   \<and> wf_json (JObj [(ustr ''b'', JNum (ustr ''1'')), (ustr ''a'', JArr [JNum (ustr ''-2.5e3'')])])
   \<and> nums_ok id id
        (JObj [(ustr ''b'', JNum (ustr ''1'')), (ustr ''a'', JArr [JNum (ustr ''-2.5e3'')])])
   \<and> sortKeysDeep cp_compare
        (JObj [(ustr ''b'', JNum (ustr ''1'')), (ustr ''a'', JArr [JNum (ustr ''-2.5e3'')])])
      = JObj [(ustr ''a'', JArr [JNum (ustr ''-2.5e3'')]), (ustr ''b'', JNum (ustr ''1''))]
   \<and> sortKeysDeep cp_compare
        (JObj [(ustr ''a'', JArr [JNum (ustr ''-2.5e3'')]), (ustr ''b'', JNum (ustr ''1''))])
      = JObj [(ustr ''a'', JArr [JNum (ustr ''-2.5e3'')]), (ustr ''b'', JNum (ustr ''1''))]
   \<and> JSON_parse id (ustr ''{\"b\":1,\"a\":[-2.5e3]}'')
      = Some (JObj [(ustr ''b'', JNum (ustr ''1'')), (ustr ''a'', JArr [JNum (ustr ''-2.5e3'')])])"
proof -
  let ?v = "JObj [(ustr ''b'', JNum (ustr ''1'')), (ustr ''a'', JArr [JNum (ustr ''-2.5e3'')])]"
  let ?s = "JObj [(ustr ''a'', JArr [JNum (ustr ''-2.5e3'')]), (ustr ''b'', JNum (ustr ''1''))]"
  have w: "wf_json ?v"
    by (simp add: ustr_def prop_ordered_def key_before_def is_array_index_def is_digit_def)
  have n: "nums_ok id id ?v"
    by (simp add: ustr_def lex_number_def lex_int_def lex_frac_def lex_exp_def is_digit_def)
  have e: "sortKeysDeep cp_compare ?v = ?s"
    by (simp add: ustr_def js_sort_def js_assign_def property_set_def cp_compare_def
        is_array_index_def is_digit_def digits_val_def)
  have s0: "JSON_stringify id 0 ?v = ustr ''{\"b\":1,\"a\":[-2.5e3]}''"
    by (simp add: JSON_stringify_def quote_def ustr_def high_surrogate_def low_surrogate_def)
  from sortKeysDeep_minify_idempotent[OF consistent_cp_compare w n]
  have "sortKeysDeep cp_compare (sortKeysDeep cp_compare ?v) = sortKeysDeep cp_compare ?v"
    and "JSON_parse id (JSON_stringify id 0 ?v) = Some ?v"
    by auto
  with e s0 w n consistent_cp_compare show ?thesis by simp
qed

end
